theory Spec2Isabelle
  imports Complex_Main
begin

section \<open>Numbers: Python and numpy floats\<close>

text \<open>
  Every number of the program is a 64-bit float (Python \<open>float\<close>, numpy \<open>float64\<close>) or a
  torch 32-bit float. The embedding keeps the special values of IEEE arithmetic, which the
  program produces by dividing by zero and which decide several of its branches, and takes
  the finite values as exact reals: overflow to infinity and the sign of zero are not
  modelled, and neither is rounding, except in the statements that are written with
  \<open>fround\<close> below: the division of the counts that gives the rates, and the row of an
  unknown tissue, which is computed from the rates.
\<close>

datatype fnum = Fin real | PInf | NInf | NaN

fun fneg :: "fnum \<Rightarrow> fnum" where
  "fneg (Fin a) = Fin (- a)"
| "fneg PInf = NInf"
| "fneg NInf = PInf"
| "fneg NaN = NaN"

fun fadd :: "fnum \<Rightarrow> fnum \<Rightarrow> fnum" where
  "fadd NaN y = NaN"
| "fadd x NaN = NaN"
| "fadd (Fin a) (Fin b) = Fin (a + b)"
| "fadd PInf NInf = NaN"
| "fadd NInf PInf = NaN"
| "fadd PInf y = PInf"
| "fadd x PInf = PInf"
| "fadd NInf y = NInf"
| "fadd x NInf = NInf"

definition fsub :: "fnum \<Rightarrow> fnum \<Rightarrow> fnum" where
  "fsub x y = fadd x (fneg y)"

text \<open>An infinity times a finite \<open>b\<close>: NaN at zero, else the sign of the product.\<close>

definition inf_times :: "bool \<Rightarrow> real \<Rightarrow> fnum" where
  "inf_times pos b =
     (if b = 0 then NaN else if (0 < b) = pos then PInf else NInf)"

fun fmul :: "fnum \<Rightarrow> fnum \<Rightarrow> fnum" where
  "fmul NaN y = NaN"
| "fmul x NaN = NaN"
| "fmul (Fin a) (Fin b) = Fin (a * b)"
| "fmul PInf (Fin b) = inf_times True b"
| "fmul NInf (Fin b) = inf_times False b"
| "fmul (Fin a) PInf = inf_times True a"
| "fmul (Fin a) NInf = inf_times False a"
| "fmul PInf PInf = PInf"
| "fmul NInf NInf = PInf"
| "fmul PInf NInf = NInf"
| "fmul NInf PInf = NInf"

text \<open>
  Division as numpy does it on floats: no exception, \<open>0 / 0\<close> is NaN and \<open>a / 0\<close> is
  an infinity with the sign of \<open>a\<close> (zero counts as positive).
\<close>

fun fdiv :: "fnum \<Rightarrow> fnum \<Rightarrow> fnum" where
  "fdiv NaN y = NaN"
| "fdiv x NaN = NaN"
| "fdiv (Fin a) (Fin b) =
     (if b \<noteq> 0 then Fin (a / b)
      else if a = 0 then NaN else if 0 < a then PInf else NInf)"
| "fdiv (Fin a) PInf = Fin 0"
| "fdiv (Fin a) NInf = Fin 0"
| "fdiv PInf (Fin b) = (if 0 \<le> b then PInf else NInf)"
| "fdiv NInf (Fin b) = (if 0 \<le> b then NInf else PInf)"
| "fdiv PInf PInf = NaN"
| "fdiv PInf NInf = NaN"
| "fdiv NInf PInf = NaN"
| "fdiv NInf NInf = NaN"

text \<open>Comparisons: every comparison with NaN is false.\<close>

fun flt :: "fnum \<Rightarrow> fnum \<Rightarrow> bool" where
  "flt NaN y = False"
| "flt x NaN = False"
| "flt (Fin a) (Fin b) = (a < b)"
| "flt x NInf = False"
| "flt PInf y = False"
| "flt NInf y = True"
| "flt x PInf = True"

fun feq :: "fnum \<Rightarrow> fnum \<Rightarrow> bool" where
  "feq NaN y = False"
| "feq x NaN = False"
| "feq x y = (x = y)"

definition fle :: "fnum \<Rightarrow> fnum \<Rightarrow> bool" where
  "fle x y = (flt x y \<or> feq x y)"

definition fgt :: "fnum \<Rightarrow> fnum \<Rightarrow> bool" where
  "fgt x y = flt y x"

definition fge :: "fnum \<Rightarrow> fnum \<Rightarrow> bool" where
  "fge x y = fle y x"

definition isnan :: "fnum \<Rightarrow> bool" where
  "isnan x = (x = NaN)"

definition isinf :: "fnum \<Rightarrow> bool" where
  "isinf x = (x = PInf \<or> x = NInf)"

definition is_finite :: "fnum \<Rightarrow> bool" where
  "is_finite v = (case v of Fin a \<Rightarrow> True | _ \<Rightarrow> False)"

text \<open>\<open>np.maximum\<close>, \<open>np.minimum\<close> and \<open>np.clip\<close>: a NaN operand gives NaN.\<close>

definition fmaximum :: "fnum \<Rightarrow> fnum \<Rightarrow> fnum" where
  "fmaximum x y = (if isnan x \<or> isnan y then NaN else if flt x y then y else x)"

definition fminimum :: "fnum \<Rightarrow> fnum \<Rightarrow> fnum" where
  "fminimum x y = (if isnan x \<or> isnan y then NaN else if flt y x then y else x)"

definition clip :: "fnum \<Rightarrow> fnum \<Rightarrow> fnum \<Rightarrow> fnum" where
  "clip x lo hi = fminimum (fmaximum x lo) hi"

text \<open>
  The rounding of a 64-bit float: the result of an operation is its real value rounded
  to 53 significant bits, to the nearest and, when two are as near, to the one whose
  last bit is 0. \<open>binade x\<close> is the exponent of \<open>x\<close>, so that
  \<open>2 powi (binade x - 52)\<close> is the distance of two neighbouring floats around \<open>x\<close>.
  The range of the exponent is not bounded: no overflow and no underflow.
\<close>

definition binade :: "real \<Rightarrow> int" where
  "binade x = \<lfloor>log 2 \<bar>x\<bar>\<rfloor>"

definition round_half_even :: "real \<Rightarrow> int" where
  "round_half_even q =
     (let n = \<lfloor>q\<rfloor>; f = q - of_int n
      in if f < 1 / 2 \<or> (f = 1 / 2 \<and> even n) then n else n + 1)"

definition round64 :: "real \<Rightarrow> real" where
  "round64 x =
     (if x = 0 then 0
      else of_int (round_half_even (x / 2 powi (binade x - 52))) * 2 powi (binade x - 52))"

fun fround :: "fnum \<Rightarrow> fnum" where
  "fround (Fin a) = Fin (round64 a)"
| "fround PInf = PInf"
| "fround NInf = NInf"
| "fround NaN = NaN"

text \<open>\<open>np.sum\<close> of a vector; the sum of no element is 0.\<close>

primrec fsum :: "fnum list \<Rightarrow> fnum" where
  "fsum [] = Fin 0"
| "fsum (x # xs) = fadd x (fsum xs)"

type_synonym vector = "fnum list"
type_synonym matrix = "fnum list list"

text \<open>
  Matrices are lists of rows. A numpy matrix is rectangular by construction; the
  embedding is used on rectangular lists only (see \<open>rectangular\<close>). \<open>np.sum\<close> over
  \<open>axis=1\<close> sums each row, over \<open>axis=0\<close> each column, and without axis all cells.
\<close>

definition ncols :: "matrix \<Rightarrow> nat" where
  "ncols M = (case M of [] \<Rightarrow> 0 | r # _ \<Rightarrow> length r)"

definition rectangular :: "matrix \<Rightarrow> bool" where
  "rectangular M = list_all (\<lambda>r. length r = ncols M) M"

definition column :: "nat \<Rightarrow> matrix \<Rightarrow> vector" where
  "column j M = map (\<lambda>r. r ! j) M"

definition sum_axis1 :: "matrix \<Rightarrow> vector" where
  "sum_axis1 M = map fsum M"

definition sum_axis0 :: "matrix \<Rightarrow> vector" where
  "sum_axis0 M = map (\<lambda>j. fsum (column j M)) [0..<ncols M]"

definition msum :: "matrix \<Rightarrow> fnum" where
  "msum M = fsum (concat M)"

text \<open>The exceptions of Python that the program can raise.\<close>

datatype error =
  AssertionError | ValueError | AxisError | RuntimeError | IndexError | ArgumentTypeError

section \<open>model.py: pseudo-counts\<close>

text \<open>
  \<open>add_pseudo_counts\<close> computes the marginal rate of the rows and of the columns with
  the same five statements: the sums that are 0 or equal to the depth are masked, the
  masked sums get \<open>pc\<close> and \<open>pc * avg_meth\<close>, and the rate is the quotient.
\<close>

definition degenerate :: "fnum \<Rightarrow> fnum \<Rightarrow> bool" where
  "degenerate m d = (feq m (Fin 0) \<or> feq m d)"

definition marginal_meth :: "fnum \<Rightarrow> fnum \<Rightarrow> vector \<Rightarrow> vector \<Rightarrow> vector" where
  "marginal_meth pc avg_meth sums_methylated sums_depths =
     map2 (\<lambda>m d.
        if degenerate m d then fdiv (fadd m (fmul pc avg_meth)) (fadd d pc) else fdiv m d)
       sums_methylated sums_depths"

definition avg_meth :: "matrix \<Rightarrow> matrix \<Rightarrow> fnum" where
  "avg_meth methylated depths = fdiv (msum methylated) (msum depths)"

definition row_meth :: "fnum \<Rightarrow> matrix \<Rightarrow> matrix \<Rightarrow> vector" where
  "row_meth pc methylated depths =
     marginal_meth pc (avg_meth methylated depths) (sum_axis1 methylated) (sum_axis1 depths)"

definition col_meth :: "fnum \<Rightarrow> matrix \<Rightarrow> matrix \<Rightarrow> vector" where
  "col_meth pc methylated depths =
     marginal_meth pc (avg_meth methylated depths) (sum_axis0 methylated) (sum_axis0 depths)"

text \<open>\<open>np.outer\<close>, and \<open>np.clip\<close> on every cell.\<close>

definition outer :: "vector \<Rightarrow> vector \<Rightarrow> matrix" where
  "outer u v = map (\<lambda>a. map (\<lambda>b. fmul a b) v) u"

definition clip_matrix :: "matrix \<Rightarrow> fnum \<Rightarrow> fnum \<Rightarrow> matrix" where
  "clip_matrix M lo hi = map (map (\<lambda>x. clip x lo hi)) M"

text \<open>
  The prior as the code computes it: the outer product of a vector of ones, as long as
  \<open>row_meth\<close>, with \<open>col_meth\<close>.
\<close>

definition meth_prior :: "fnum \<Rightarrow> matrix \<Rightarrow> matrix \<Rightarrow> matrix" where
  "meth_prior pc methylated depths =
     clip_matrix
       (outer (replicate (length (row_meth pc methylated depths)) (Fin 1))
          (col_meth pc methylated depths))
       (Fin (1 / 100)) (Fin (99 / 100))"

text \<open>The two masked updates of the cells.\<close>

definition impute_methylated :: "fnum \<Rightarrow> matrix \<Rightarrow> matrix \<Rightarrow> matrix \<Rightarrow> matrix" where
  "impute_methylated pc methylated depths prior =
     map2 (\<lambda>(ms, ds) ps.
        map2 (\<lambda>(m, d) p. if degenerate m d then fadd m (fmul pc p) else m) (zip ms ds) ps)
       (zip methylated depths) prior"

definition impute_depths :: "fnum \<Rightarrow> matrix \<Rightarrow> matrix \<Rightarrow> matrix" where
  "impute_depths pc methylated depths =
     map2 (\<lambda>ms ds. map2 (\<lambda>m d. if degenerate m d then fadd d pc else d) ms ds)
       methylated depths"

definition all_cells :: "(fnum \<Rightarrow> bool) \<Rightarrow> matrix \<Rightarrow> bool" where
  "all_cells P M = list_all (list_all P) M"

definition any_cell :: "(fnum \<Rightarrow> bool) \<Rightarrow> matrix \<Rightarrow> bool" where
  "any_cell P M = list_ex (list_ex P) M"

definition all_cells2 :: "(fnum \<Rightarrow> fnum \<Rightarrow> bool) \<Rightarrow> matrix \<Rightarrow> matrix \<Rightarrow> bool" where
  "all_cells2 P M N = list_all (\<lambda>(r, s). list_all (\<lambda>(x, y). P x y) (zip r s)) (zip M N)"

text \<open>
  \<open>add_pseudo_counts\<close>, with its six assertions in their order; a failed assertion is
  the result \<open>Inl AssertionError\<close>.
\<close>

definition add_pseudo_counts :: "matrix \<Rightarrow> matrix \<Rightarrow> fnum \<Rightarrow> error + matrix \<times> matrix" where
  "add_pseudo_counts methylated depths pc =
     (let prior = meth_prior pc methylated depths;
          methylated' = impute_methylated pc methylated depths prior;
          depths' = impute_depths pc methylated depths
      in if \<not> all_cells (\<lambda>m. fgt m (Fin 0)) methylated' then Inl AssertionError
         else if any_cell isnan methylated' then Inl AssertionError
         else if any_cell isnan depths' then Inl AssertionError
         else if any_cell isinf methylated' then Inl AssertionError
         else if any_cell isinf depths' then Inl AssertionError
         else if \<not> all_cells2 flt methylated' depths' then Inl AssertionError
         else Inr (methylated', depths'))"

text \<open>The default value of the argument \<open>pc\<close>.\<close>

definition pc_default :: fnum where
  "pc_default = Fin (8 / 10)"

text \<open>
  The prior as the specification words it, for comparison: the outer product of the row
  rates and the column rates, clipped.
\<close>

definition meth_prior_rows_by_columns :: "fnum \<Rightarrow> matrix \<Rightarrow> matrix \<Rightarrow> matrix" where
  "meth_prior_rows_by_columns pc methylated depths =
     clip_matrix (outer (row_meth pc methylated depths) (col_meth pc methylated depths))
       (Fin (1 / 100)) (Fin (99 / 100))"

text \<open>
  Valid count matrices: the same shape, finite cells, and
  \<open>0 \<le> methylated \<le> depth\<close> in every cell.
\<close>

definition valid_cell :: "fnum \<Rightarrow> fnum \<Rightarrow> bool" where
  "valid_cell m d = (case (m, d) of (Fin a, Fin b) \<Rightarrow> 0 \<le> a \<and> a \<le> b | _ \<Rightarrow> False)"

definition valid_counts :: "matrix \<Rightarrow> matrix \<Rightarrow> bool" where
  "valid_counts methylated depths =
     (rectangular methylated \<and> list_all2 (list_all2 valid_cell) methylated depths)"

text \<open>What the assertions promise of a cell: finite, and \<open>0 < methylated < depth\<close>.\<close>

definition corrected_cell :: "fnum \<Rightarrow> fnum \<Rightarrow> bool" where
  "corrected_cell m d = (case (m, d) of (Fin a, Fin b) \<Rightarrow> 0 < a \<and> a < b | _ \<Rightarrow> False)"

text \<open>Two matrices of the same shape, the first (hence both) rectangular.\<close>

definition same_shape :: "matrix \<Rightarrow> matrix \<Rightarrow> bool" where
  "same_shape M N = (rectangular M \<and> list_all2 (\<lambda>r s. length r = length s) M N)"

section \<open>model.py: the constructor\<close>

text \<open>
  The fields of a \<open>MetDecode\<close> object; \<open>info_loss\<close> is \<open>info['loss']\<close>, and
  \<open>R_interleaved\<close> and \<open>X_interleaved\<close> are the fields \<open>R\<close> and \<open>X\<close>. The counts of
  tissues are Python integers.
\<close>

record metdecode =
  X_methylated :: matrix
  X_depths :: matrix
  R_methylated :: matrix
  R_depths :: matrix
  beta :: fnum
  n_known_tissues :: int
  n_unknown_tissues :: int
  n_tissues :: int
  R_interleaved :: matrix
  X_interleaved :: matrix
  info_loss :: "fnum list"

text \<open>
  The fields \<open>R\<close> and \<open>X\<close>: every row holds, marker after marker, the methylated count
  and the unmethylated count \<open>depth - methylated\<close>.
\<close>

definition interleave :: "matrix \<Rightarrow> matrix \<Rightarrow> matrix" where
  "interleave methylated depths =
     map2 (\<lambda>ms ds. concat (map2 (\<lambda>m d. [m, fsub d m]) ms ds)) methylated depths"

definition MetDecode_init ::
  "matrix \<Rightarrow> matrix \<Rightarrow> matrix \<Rightarrow> matrix \<Rightarrow> fnum \<Rightarrow> int \<Rightarrow> error + metdecode" where
  "MetDecode_init R_meth R_dep X_meth X_dep beta_arg n_unknown =
     (case add_pseudo_counts R_meth R_dep pc_default of
        Inl e \<Rightarrow> Inl e
      | Inr (R_meth', R_dep') \<Rightarrow>
          (case add_pseudo_counts X_meth X_dep pc_default of
             Inl e \<Rightarrow> Inl e
           | Inr (X_meth', X_dep') \<Rightarrow>
               Inr \<lparr>X_methylated = X_meth', X_depths = X_dep',
                    R_methylated = R_meth', R_depths = R_dep',
                    beta = beta_arg,
                    n_known_tissues = int (length R_meth),
                    n_unknown_tissues = n_unknown,
                    n_tissues = int (length R_meth) + n_unknown,
                    R_interleaved = interleave R_meth' R_dep',
                    X_interleaved = interleave X_meth' X_dep',
                    info_loss = []\<rparr>))"

text \<open>The default value of the argument \<open>beta\<close> of the constructor.\<close>

definition beta_default :: fnum where
  "beta_default = Fin 1"

section \<open>model.py: the initializer\<close>

text \<open>\<open>np.sqrt\<close>, \<open>np.log\<close> and \<open>scipy.special.logit\<close> on one number.\<close>

fun fsqrt :: "fnum \<Rightarrow> fnum" where
  "fsqrt (Fin a) = (if a < 0 then NaN else Fin (sqrt a))"
| "fsqrt PInf = PInf"
| "fsqrt NInf = NaN"
| "fsqrt NaN = NaN"

fun flog :: "fnum \<Rightarrow> fnum" where
  "flog (Fin a) = (if a < 0 then NaN else if a = 0 then NInf else Fin (ln a))"
| "flog PInf = PInf"
| "flog NInf = NaN"
| "flog NaN = NaN"

fun logit :: "fnum \<Rightarrow> fnum" where
  "logit (Fin a) =
     (if a < 0 \<or> 1 < a then NaN else if a = 0 then NInf else if a = 1 then PInf
      else Fin (ln (a / (1 - a))))"
| "logit PInf = NaN"
| "logit NInf = NaN"
| "logit NaN = NaN"

text \<open>
  Operations on all cells of two matrices of one shape, and the transposed matrix. The
  quotients, which are the methylation rates, are rounded as floats are.
\<close>

definition div_matrix :: "matrix \<Rightarrow> matrix \<Rightarrow> matrix" where
  "div_matrix M N = map2 (map2 (\<lambda>m d. fround (fdiv m d))) M N"

definition sub_matrix :: "matrix \<Rightarrow> matrix \<Rightarrow> matrix" where
  "sub_matrix M N = map2 (map2 fsub) M N"

definition transpose_matrix :: "matrix \<Rightarrow> matrix" where
  "transpose_matrix M = map (\<lambda>j. column j M) [0..<ncols M]"

text \<open>
  \<open>scipy.optimize.nnls\<close> is a parameter of the embedding: \<open>solve A b maxiter\<close> is the
  coefficient vector that the library returns for the matrix \<open>A\<close>, the vector \<open>b\<close> and
  the iteration cap. A call that raises is not modelled.
\<close>

type_synonym solver = "matrix \<Rightarrow> vector \<Rightarrow> nat \<Rightarrow> vector"

text \<open>
  \<open>MetDecode.nnls\<close>. Without samples \<open>alpha_hat\<close> is an array of one dimension and the
  sum over \<open>axis=1\<close> raises; coefficient vectors of different lengths do not make a
  matrix.
\<close>

definition nnls :: "solver \<Rightarrow> matrix \<Rightarrow> matrix \<Rightarrow> matrix \<Rightarrow> error + matrix" where
  "nnls solve R_atlas R_cfdna W_cfdna =
     (let n_samples = length R_cfdna;
          alpha_hat = map (\<lambda>i.
             let A = transpose_matrix
                       (map (\<lambda>row. map2 (\<lambda>w r. fmul (fsqrt w) r) (W_cfdna ! i) row) R_atlas);
                 b = map2 (\<lambda>w x. fmul (fsqrt w) x) (W_cfdna ! i) (R_cfdna ! i)
             in solve A b 3000) [0..<n_samples]
      in if n_samples = 0 then Inl AxisError
         else if \<not> list_all (\<lambda>x. length x = length (hd alpha_hat)) alpha_hat
           then Inl ValueError
         else Inr (map (\<lambda>x. map (\<lambda>v. fdiv v (fsum x)) x) alpha_hat))"

text \<open>
  The three statements that follow each solve: \<open>MetDecode.nnls\<close>, then \<open>1e-6\<close> is added
  to every entry, then every row is divided by its sum.
\<close>

definition add_epsilon :: "matrix \<Rightarrow> matrix" where
  "add_epsilon alpha_hat = map (map (\<lambda>v. fadd v (Fin (1 / 1000000)))) alpha_hat"

definition normalize_rows :: "matrix \<Rightarrow> matrix" where
  "normalize_rows alpha_hat = map (\<lambda>x. map (\<lambda>v. fdiv v (fsum x)) x) alpha_hat"

definition proportions :: "solver \<Rightarrow> matrix \<Rightarrow> matrix \<Rightarrow> matrix \<Rightarrow> error + matrix" where
  "proportions solve R_atlas R_cfdna W_cfdna =
     (case nnls solve R_atlas R_cfdna W_cfdna of
        Inl e \<Rightarrow> Inl e
      | Inr alpha_hat \<Rightarrow> Inr (normalize_rows (add_epsilon alpha_hat)))"

text \<open>
  \<open>np.min\<close> and \<open>np.max\<close> over \<open>axis=0\<close>: a matrix without rows raises, and a NaN in a
  column gives NaN.
\<close>

definition min_axis0 :: "matrix \<Rightarrow> error + vector" where
  "min_axis0 M =
     (if M = [] then Inl ValueError
      else Inr (map (\<lambda>j. fold fminimum (tl (column j M)) (hd (column j M))) [0..<ncols M]))"

definition max_axis0 :: "matrix \<Rightarrow> error + vector" where
  "max_axis0 M =
     (if M = [] then Inl ValueError
      else Inr (map (\<lambda>j. fold fmaximum (tl (column j M)) (hd (column j M))) [0..<ncols M]))"

text \<open>\<open>np.dot\<close> of two matrices; rows of \<open>A\<close> not as long as \<open>B\<close> has rows raise.\<close>

definition dot :: "matrix \<Rightarrow> matrix \<Rightarrow> error + matrix" where
  "dot A B =
     (if list_ex (\<lambda>row. length row \<noteq> length B) A then Inl ValueError
      else Inr (map (\<lambda>row. map (\<lambda>j. fsum (map2 fmul row (column j B))) [0..<ncols B]) A))"

text \<open>
  \<open>np.median\<close>: NaN when a value is NaN (or there is none), else the middle of the
  sorted values, the mean of the two middle ones when their number is even.
\<close>

primrec insort_f :: "fnum \<Rightarrow> vector \<Rightarrow> vector" where
  "insort_f x [] = [x]"
| "insort_f x (y # ys) = (if fle x y then x # y # ys else y # insort_f x ys)"

definition sort_f :: "vector \<Rightarrow> vector" where
  "sort_f xs = foldr insort_f xs []"

definition median :: "vector \<Rightarrow> fnum" where
  "median xs =
     (let n = length xs; s = sort_f xs
      in if n = 0 \<or> list_ex isnan xs then NaN
         else if odd n then s ! (n div 2)
         else fdiv (fadd (s ! (n div 2 - 1)) (s ! (n div 2))) (Fin 2))"

definition median_axis0 :: "matrix \<Rightarrow> vector" where
  "median_axis0 M = map (\<lambda>j. median (column j M)) [0..<ncols M]"

text \<open>
  The row of the new tissue: \<open>lb + r * (ub - lb)\<close>, where \<open>r\<close> is 1 at the markers
  whose median residual is at most 0 and 0 at the others. Whether the row is \<open>ub\<close> or
  \<open>lb\<close> themselves depends on the rounding of the three operations, so each of them is
  rounded here.
\<close>

definition unknown_profile :: "vector \<Rightarrow> vector \<Rightarrow> vector \<Rightarrow> vector" where
  "unknown_profile lb ub residuals =
     (let r = map (\<lambda>x. if fle x (Fin 0) then Fin 1 else Fin 0) residuals
      in map2 (\<lambda>l p. fround (fadd l p)) lb
           (map2 (\<lambda>r d. fround (fmul r d)) r (map2 (\<lambda>u l. fround (fsub u l)) ub lb)))"

text \<open>One turn of the loop over the unknown tissues, on the atlas and the proportions.\<close>

definition unknown_iteration ::
  "solver \<Rightarrow> vector \<Rightarrow> vector \<Rightarrow> matrix \<Rightarrow> matrix \<Rightarrow> matrix \<times> matrix \<Rightarrow>
     error + matrix \<times> matrix" where
  "unknown_iteration solve lb ub R_cfdna W_cfdna s =
     (let (R_atlas, alpha_hat) = s
      in case dot alpha_hat R_atlas of
           Inl e \<Rightarrow> Inl e
         | Inr reconstruction \<Rightarrow>
             (let residuals = sub_matrix reconstruction R_cfdna;
                  residuals = median_axis0 residuals;
                  r = unknown_profile lb ub residuals;
                  R_atlas' = R_atlas @ [r]
              in case proportions solve R_atlas' R_cfdna W_cfdna of
                   Inl e \<Rightarrow> Inl e
                 | Inr alpha_hat' \<Rightarrow> Inr (R_atlas', alpha_hat')))"

fun unknown_loop ::
  "solver \<Rightarrow> vector \<Rightarrow> vector \<Rightarrow> matrix \<Rightarrow> matrix \<Rightarrow> nat \<Rightarrow> matrix \<times> matrix \<Rightarrow>
     error + matrix \<times> matrix" where
  "unknown_loop solve lb ub R_cfdna W_cfdna 0 s = Inr s"
| "unknown_loop solve lb ub R_cfdna W_cfdna (Suc n) s =
     (case unknown_iteration solve lb ub R_cfdna W_cfdna s of
        Inl e \<Rightarrow> Inl e
      | Inr s' \<Rightarrow> unknown_loop solve lb ub R_cfdna W_cfdna n s')"

text \<open>The three ratio matrices that the initializer and the loss compute from the counts.\<close>

definition atlas_ratios :: "metdecode \<Rightarrow> matrix" where
  "atlas_ratios self = div_matrix (R_methylated self) (R_depths self)"

definition cfdna_ratios :: "metdecode \<Rightarrow> matrix" where
  "cfdna_ratios self = div_matrix (X_methylated self) (X_depths self)"

definition depth_weights :: "metdecode \<Rightarrow> matrix" where
  "depth_weights self = map (map (\<lambda>d. fdiv d (msum (X_depths self)))) (X_depths self)"

text \<open>
  \<open>_init_alpha_and_gamma\<close> up to the end of its loop: the atlas, with the rows of the
  unknown tissues, and the proportions \<open>alpha_hat\<close>.
\<close>

definition init_atlas_and_alpha_hat :: "metdecode \<Rightarrow> solver \<Rightarrow> error + matrix \<times> matrix" where
  "init_atlas_and_alpha_hat self solve =
     (let R_atlas = atlas_ratios self;
          R_cfdna = cfdna_ratios self;
          W_cfdna = depth_weights self
      in case proportions solve R_atlas R_cfdna W_cfdna of
           Inl e \<Rightarrow> Inl e
         | Inr alpha_hat \<Rightarrow>
             (case min_axis0 R_atlas of
                Inl e \<Rightarrow> Inl e
              | Inr lb \<Rightarrow>
                  (case max_axis0 R_atlas of
                     Inl e \<Rightarrow> Inl e
                   | Inr ub \<Rightarrow>
                       unknown_loop solve lb ub R_cfdna W_cfdna
                         (nat (n_unknown_tissues self)) (R_atlas, alpha_hat))))"

text \<open>\<open>_init_alpha_and_gamma\<close>: the pair \<open>(alpha_logit, gamma_logit)\<close>.\<close>

definition init_alpha_and_gamma :: "metdecode \<Rightarrow> solver \<Rightarrow> error + matrix \<times> matrix" where
  "init_alpha_and_gamma self solve =
     (case init_atlas_and_alpha_hat self solve of
        Inl e \<Rightarrow> Inl e
      | Inr (R_atlas, alpha_hat) \<Rightarrow> Inr (map (map flog) alpha_hat, map (map logit) R_atlas))"

text \<open>
  The last step of the initializer as the specification words it, for comparison:
  every entry is floored at \<open>1e-6\<close>, then every row is divided by its sum.
\<close>

definition floor_epsilon :: "matrix \<Rightarrow> matrix" where
  "floor_epsilon alpha_hat = map (map (\<lambda>v. fmaximum v (Fin (1 / 1000000)))) alpha_hat"

text \<open>
  What the initializer is given and what it relies on. The count matrices of an object
  are non-empty and of matching shapes (\<open>init_shapes\<close>). The systems that the
  initializer gives to the solver are positive: the matrix \<open>A\<close> has a row per marker
  and a column per tissue, \<open>b\<close> has an entry per marker, and all their entries are
  finite and positive (\<open>positive_system\<close>). For such a system the coefficient vector
  of the solver has one coefficient for every column of \<open>A\<close>, no negative entry and a
  positive sum (\<open>nonneg_solution\<close>, \<open>solver_ok\<close>). Nothing is asked of the solver on
  other systems, and it need not be exact. An exact solver meets the condition:
  \<open>squared_residual A b x\<close> is what it minimises over the vectors \<open>x\<close> without negative
  entry, and on a positive system the zero vector does not minimise it. A row of
  proportions is on the simplex within the tolerance \<open>1e-6\<close> when its entries are finite
  and not negative and their sum differs from 1 by at most \<open>1e-6\<close> (\<open>simplex_row\<close>);
  \<open>unit_sum_row\<close> is the same with the sum 1.
\<close>

definition nonneg_cell :: "fnum \<Rightarrow> bool" where
  "nonneg_cell v = (case v of Fin a \<Rightarrow> 0 \<le> a | _ \<Rightarrow> False)"

definition positive_cell :: "fnum \<Rightarrow> bool" where
  "positive_cell v = (case v of Fin a \<Rightarrow> 0 < a | _ \<Rightarrow> False)"

definition nonneg_solution :: "vector \<Rightarrow> bool" where
  "nonneg_solution x = (list_all nonneg_cell x \<and> flt (Fin 0) (fsum x))"

definition unit_sum_row :: "vector \<Rightarrow> bool" where
  "unit_sum_row x = (list_all nonneg_cell x \<and> fsum x = Fin 1)"

definition simplex_row :: "vector \<Rightarrow> bool" where
  "simplex_row x =
     (list_all nonneg_cell x \<and>
      (case fsum x of Fin t \<Rightarrow> \<bar>t - 1\<bar> \<le> 1 / 1000000 | _ \<Rightarrow> False))"

definition positive_system :: "matrix \<Rightarrow> vector \<Rightarrow> bool" where
  "positive_system A b =
     (A \<noteq> [] \<and> 0 < ncols A \<and> rectangular A \<and> all_cells positive_cell A \<and>
      length b = length A \<and> list_all positive_cell b)"

definition solver_ok :: "solver \<Rightarrow> bool" where
  "solver_ok solve =
     (\<forall>A b. positive_system A b \<longrightarrow>
        length (solve A b 3000) = ncols A \<and> nonneg_solution (solve A b 3000))"

definition squared_residual :: "matrix \<Rightarrow> vector \<Rightarrow> vector \<Rightarrow> fnum" where
  "squared_residual A b x =
     fsum (map2 (\<lambda>row v. let d = fsub (fsum (map2 fmul row x)) v in fmul d d) A b)"

definition init_shapes :: "metdecode \<Rightarrow> bool" where
  "init_shapes self =
     (X_methylated self \<noteq> [] \<and> same_shape (X_methylated self) (X_depths self) \<and>
      R_methylated self \<noteq> [] \<and> same_shape (R_methylated self) (R_depths self) \<and>
      0 < ncols (R_methylated self) \<and>
      ncols (X_methylated self) = ncols (R_methylated self))"

text \<open>Count matrices as \<open>add_pseudo_counts\<close> returns them.\<close>

definition corrected_counts :: "matrix \<Rightarrow> matrix \<Rightarrow> bool" where
  "corrected_counts methylated depths = list_all2 (list_all2 corrected_cell) methylated depths"

text \<open>
  Two solvers for the examples: all the weight on the first tissue; and the least
  squares solution on the first tissue alone, \<open>(c . b) / (c . c)\<close> for the first column
  \<open>c\<close> of \<open>A\<close>, with the coefficient 0 for the other tissues.
\<close>

definition first_tissue_solver :: solver where
  "first_tissue_solver A b maxiter = Fin 1 # replicate (ncols A - 1) (Fin 0)"

definition first_column_solver :: solver where
  "first_column_solver A b maxiter =
     (let c = column 0 A
      in fdiv (fsum (map2 fmul c b)) (fsum (map2 fmul c c)) # replicate (ncols A - 1) (Fin 0))"

text \<open>
  What the loop over the unknown tissues keeps of the atlas, and what holds of the
  observed ratios and of the weights: rows of \<open>m\<close> finite positive cells.
\<close>

definition positive_matrix :: "nat \<Rightarrow> matrix \<Rightarrow> bool" where
  "positive_matrix m A = list_all (\<lambda>r. length r = m \<and> list_all positive_cell r) A"

text \<open>
  An object for the examples: two tissues with the rates (1/2, 1/2) and (1/4, 3/4) at
  two markers, and one sample with the rates of the first tissue.
\<close>

definition example_model :: metdecode where
  "example_model =
     \<lparr>X_methylated = [[Fin 1, Fin 1]], X_depths = [[Fin 2, Fin 2]],
      R_methylated = [[Fin 1, Fin 1], [Fin 1, Fin 3]],
      R_depths = [[Fin 2, Fin 2], [Fin 4, Fin 4]],
      beta = Fin 1, n_known_tissues = 2, n_unknown_tissues = 0, n_tissues = 2,
      R_interleaved = [[Fin 1, Fin 1, Fin 1, Fin 1], [Fin 1, Fin 3, Fin 3, Fin 1]],
      X_interleaved = [[Fin 1, Fin 1, Fin 1, Fin 1]], info_loss = []\<rparr>"


section \<open>optimizer.py: the learning-rate scheduler\<close>

text \<open>
  A torch tensor that the optimizers update: its values and its accumulated gradient
  (\<open>None\<close> until the first backward pass). Tensors live in a store and are named by
  references of type \<open>'n\<close>, since the optimizer and the driver share them.
\<close>

record tensor =
  data :: matrix
  grad :: "matrix option"

type_synonym 'n store = "'n \<Rightarrow> tensor"

text \<open>The dictionary \<open>{'params': param, 'lr': lr}\<close> of one parameter group.\<close>

record 'n group =
  params :: "'n list"
  lr :: fnum

text \<open>
  A \<open>torch.optim.Adam\<close> object: its parameter groups and its moment estimates, of an
  abstract type \<open>'s\<close>. The library's arithmetic is a parameter \<open>upd\<close> of the embedding:
  \<open>upd rate s t\<close> is the new moment state and the new values of tensor \<open>t\<close>. What is
  modelled of \<open>Adam.step\<close> is its loop: every tensor of every group of this optimizer,
  and no other tensor, is updated with the rate of its group.
\<close>

record ('n, 's) adam =
  param_groups :: "'n group list"
  moments :: 's

type_synonym 's adam_update = "fnum \<Rightarrow> 's \<Rightarrow> tensor \<Rightarrow> 's \<times> matrix"

fun adam_step_params ::
  "'s adam_update \<Rightarrow> fnum \<Rightarrow> 'n list \<Rightarrow> 's \<times> 'n store \<Rightarrow> 's \<times> 'n store" where
  "adam_step_params upd rate [] (s, st) = (s, st)"
| "adam_step_params upd rate (p # ps) (s, st) =
     (case grad (st p) of
        None \<Rightarrow> adam_step_params upd rate ps (s, st)
      | Some g \<Rightarrow>
          (let (s', d) = upd rate s (st p)
           in adam_step_params upd rate ps (s', st(p := (st p)\<lparr>data := d\<rparr>))))"

fun adam_step_groups ::
  "'s adam_update \<Rightarrow> 'n group list \<Rightarrow> 's \<times> 'n store \<Rightarrow> 's \<times> 'n store" where
  "adam_step_groups upd [] (s, st) = (s, st)"
| "adam_step_groups upd (g # gs) (s, st) =
     adam_step_groups upd gs (adam_step_params upd (lr g) (params g) (s, st))"

definition adam_step ::
  "'s adam_update \<Rightarrow> ('n, 's) adam \<Rightarrow> 'n store \<Rightarrow> ('n, 's) adam \<times> 'n store" where
  "adam_step upd a st =
     (let (s', st') = adam_step_groups upd (param_groups a) (moments a, st)
      in (a\<lparr>moments := s'\<rparr>, st'))"

text \<open>\<open>Adam.zero_grad\<close>: the gradient of every tensor of the optimizer is dropped.\<close>

definition adam_zero_grad :: "('n, 's) adam \<Rightarrow> 'n store \<Rightarrow> 'n store" where
  "adam_zero_grad a st =
     fold (\<lambda>p st. st(p := (st p)\<lparr>grad := None\<rparr>)) (concat (map params (param_groups a))) st"

text \<open>The class \<open>Optimizer\<close>, with its fields.\<close>

record ('n, 's) optimizer =
  alpha_up :: fnum
  alpha_down :: fnum
  lr_lb :: fnum
  lr_ub :: fnum
  verbose :: bool
  optimizers :: "('n, 's) adam list"
  parameters :: "'n group list"
  cursor :: nat
  last_loss :: fnum

text \<open>\<open>Optimizer.__init__\<close>, and the values of its default arguments.\<close>

definition Optimizer_init ::
  "fnum \<Rightarrow> fnum \<Rightarrow> fnum \<Rightarrow> fnum \<Rightarrow> bool \<Rightarrow> ('n, 's) optimizer" where
  "Optimizer_init a_up a_down lb ub verb =
     \<lparr>alpha_up = a_up, alpha_down = a_down, lr_lb = lb, lr_ub = ub, verbose = verb,
      optimizers = [], parameters = [], cursor = 0, last_loss = PInf\<rparr>"

definition Optimizer_default :: "('n, 's) optimizer" where
  "Optimizer_default =
     Optimizer_init (Fin (1015 / 1000)) (Fin (9 / 10)) (Fin 0) (Fin 100000) False"

text \<open>
  \<open>Optimizer.add\<close>: the group is appended to \<open>parameters\<close>, and a new Adam object over
  this one group, with fresh moments \<open>s0\<close>, to \<open>optimizers\<close>. The constructor of Adam
  raises for a rate that is negative or NaN; this is not modelled, the program adds
  its one group with the rate 0.01.
\<close>

definition Optimizer_add ::
  "'s \<Rightarrow> 'n list \<Rightarrow> fnum \<Rightarrow> ('n, 's) optimizer \<Rightarrow> ('n, 's) optimizer" where
  "Optimizer_add s0 param rate opt =
     (let g = \<lparr>params = param, lr = rate\<rparr>
      in opt\<lparr>parameters := parameters opt @ [g],
             optimizers := optimizers opt @ [\<lparr>param_groups = [g], moments = s0\<rparr>]\<rparr>)"

definition Optimizer_zero_grad :: "('n, 's) optimizer \<Rightarrow> 'n store \<Rightarrow> 'n store" where
  "Optimizer_zero_grad opt st = fold adam_zero_grad (optimizers opt) st"

text \<open>
  \<open>Optimizer.step\<close>. The rate of the group before the cursor is adapted from the
  comparison of \<open>loss\<close> with \<open>last_loss\<close>, the one reference loss of the object; then the
  Adam object under the cursor makes its step and the cursor advances.
\<close>

definition Optimizer_step ::
  "'s adam_update \<Rightarrow> fnum \<Rightarrow> ('n, 's) optimizer \<times> 'n store \<Rightarrow>
     ('n, 's) optimizer \<times> 'n store" where
  "Optimizer_step upd loss os =
     (let (opt, st) = os; n = length (parameters opt)
      in if cursor opt \<ge> n then (opt, st)
         else
           let previous_cursor = (cursor opt + n - 1) mod n;
               factor = (if fle loss (last_loss opt) then alpha_up opt else alpha_down opt);
               rate = lr (parameters opt ! previous_cursor);
               rate = clip (fmul rate factor) (lr_lb opt) (lr_ub opt);
               ps = (parameters opt)[previous_cursor :=
                      (parameters opt ! previous_cursor)\<lparr>lr := rate\<rparr>];
               a = optimizers opt ! previous_cursor;
               os1 = (optimizers opt)[previous_cursor :=
                      a\<lparr>param_groups := map (\<lambda>g. g\<lparr>lr := rate\<rparr>) (param_groups a)\<rparr>];
               (a', st') = adam_step upd (os1 ! cursor opt) st
           in (opt\<lparr>parameters := ps,
                   optimizers := os1[cursor opt := a'],
                   last_loss := loss,
                   cursor := (cursor opt + 1) mod n\<rparr>, st'))"

text \<open>A sequence of calls of \<open>step\<close>, one per loss value.\<close>

fun Optimizer_steps ::
  "'s adam_update \<Rightarrow> fnum list \<Rightarrow> ('n, 's) optimizer \<times> 'n store \<Rightarrow>
     ('n, 's) optimizer \<times> 'n store" where
  "Optimizer_steps upd [] os = os"
| "Optimizer_steps upd (l # ls) os = Optimizer_steps upd ls (Optimizer_step upd l os)"

text \<open>
  The scheduler as the specification words it, for comparison: every group keeps a
  reference loss of its own, and a call compares the loss with the reference of the
  group it adapts.
\<close>

record sched =
  s_rates :: "fnum list"
  s_refs :: "fnum list"
  s_cursor :: nat

definition step_per_group_reference ::
  "fnum \<Rightarrow> fnum \<Rightarrow> fnum \<Rightarrow> fnum \<Rightarrow> fnum \<Rightarrow> sched \<Rightarrow> sched" where
  "step_per_group_reference up down lb ub loss s =
     (let n = length (s_rates s)
      in if n = 0 then s
         else
           let previous = (s_cursor s + n - 1) mod n;
               factor = (if fle loss (s_refs s ! previous) then up else down);
               rate = clip (fmul (s_rates s ! previous) factor) lb ub
           in s\<lparr>s_rates := (s_rates s)[previous := rate],
                s_refs := (s_refs s)[previous := loss],
                s_cursor := (s_cursor s + 1) mod n\<rparr>)"

text \<open>An optimizer with one group, as \<open>deconvolute\<close> builds it.\<close>

definition single_group :: "('n, 's) optimizer \<Rightarrow> bool" where
  "single_group opt =
     (length (parameters opt) = 1 \<and> length (optimizers opt) = 1 \<and> cursor opt = 0)"

section \<open>model.py: the loss\<close>

text \<open>
  \<open>exp\<close> and the power of torch on one number. The power follows the IEEE rules for
  the special values; of a negative base only integer powers exist.
\<close>

fun fexp :: "fnum \<Rightarrow> fnum" where
  "fexp (Fin a) = Fin (exp a)"
| "fexp PInf = PInf"
| "fexp NInf = Fin 0"
| "fexp NaN = NaN"

definition fpow :: "fnum \<Rightarrow> fnum \<Rightarrow> fnum" where
  "fpow x y =
     (case y of
        NaN \<Rightarrow> (if x = Fin 1 then Fin 1 else NaN)
      | Fin b \<Rightarrow>
          (if b = 0 then Fin 1
           else case x of
                  NaN \<Rightarrow> NaN
                | Fin a \<Rightarrow>
                    (if 0 < a then Fin (a powr b)
                     else if a = 0 then (if 0 < b then Fin 0 else PInf)
                     else if b = of_int \<lfloor>b\<rfloor>
                       then Fin ((if even \<lfloor>b\<rfloor> then 1 else - 1) * ((- a) powr b))
                     else NaN)
                | PInf \<Rightarrow> (if 0 < b then PInf else Fin 0)
                | NInf \<Rightarrow>
                    (if 0 < b then (if b = of_int \<lfloor>b\<rfloor> \<and> odd \<lfloor>b\<rfloor> then NInf else PInf)
                     else Fin 0))
      | PInf \<Rightarrow>
          (case x of
             NaN \<Rightarrow> NaN
           | Fin a \<Rightarrow> (if \<bar>a\<bar> < 1 then Fin 0 else if \<bar>a\<bar> = 1 then Fin 1 else PInf)
           | _ \<Rightarrow> PInf)
      | NInf \<Rightarrow>
          (case x of
             NaN \<Rightarrow> NaN
           | Fin a \<Rightarrow> (if \<bar>a\<bar> < 1 then PInf else if \<bar>a\<bar> = 1 then Fin 1 else Fin 0)
           | _ \<Rightarrow> Fin 0))"

text \<open>
  The softmax of a row, as torch and scipy compute it (the maximum is subtracted first),
  and the sigmoid.
\<close>

definition softmax_row :: "vector \<Rightarrow> vector" where
  "softmax_row xs =
     (case xs of
        [] \<Rightarrow> []
      | x # r \<Rightarrow>
          (let mx = fold fmaximum r x;
               es = map (\<lambda>v. fexp (fsub v mx)) xs;
               s = fsum es
           in map (\<lambda>e. fdiv e s) es))"

definition softmax :: "matrix \<Rightarrow> matrix" where
  "softmax M = map softmax_row M"

definition sigmoid :: "fnum \<Rightarrow> fnum" where
  "sigmoid x = fdiv (Fin 1) (fadd (Fin 1) (fexp (fneg x)))"

text \<open>\<open>torch.mm\<close>; matrices that do not fit raise.\<close>

definition mm :: "matrix \<Rightarrow> matrix \<Rightarrow> error + matrix" where
  "mm A B =
     (if list_ex (\<lambda>row. length row \<noteq> length B) A then Inl RuntimeError
      else Inr (map (\<lambda>row. map (\<lambda>j. fsum (map2 fmul row (column j B))) [0..<ncols B]) A))"

text \<open>
  The weights of the loss: the share of every cell in the total depth of the cfDNA
  matrix, to the power \<open>beta\<close> of the object.
\<close>

definition loss_weights :: "metdecode \<Rightarrow> matrix" where
  "loss_weights self = map (map (\<lambda>w. fpow w (beta self))) (depth_weights self)"

text \<open>\<open>_objective\<close>; the final \<open>sum(losses)\<close> adds the one loss to the integer 0.\<close>

definition objective :: "metdecode \<Rightarrow> matrix \<Rightarrow> matrix \<Rightarrow> error + fnum" where
  "objective self alpha_logit gamma_logit =
     (let alpha = softmax alpha_logit;
          gamma = map (map sigmoid) gamma_logit
      in case mm alpha gamma of
           Inl e \<Rightarrow> Inl e
         | Inr X_reconstructed \<Rightarrow>
             (let weights = loss_weights self;
                  meth = cfdna_ratios self;
                  squares = map (map (\<lambda>d. fmul d d)) (sub_matrix X_reconstructed meth)
              in Inr (fadd (Fin 0) (msum (map2 (map2 fmul) weights squares)))))"

section \<open>model.py: the driver\<close>

text \<open>
  The two tensors of \<open>deconvolute\<close>. The gradients of the loss are a parameter of the
  embedding: \<open>gradients self a g\<close> is the pair of the gradients with respect to
  \<open>alpha_logit\<close> and to \<open>gamma_logit\<close> at the values \<open>a\<close> and \<open>g\<close>, which
  \<open>loss.backward()\<close> adds to the gradient of each tensor.
\<close>

datatype tname = AlphaLogit | GammaLogit

type_synonym autograd = "metdecode \<Rightarrow> matrix \<Rightarrow> matrix \<Rightarrow> matrix \<times> matrix"

definition accumulate :: "tensor \<Rightarrow> matrix \<Rightarrow> tensor" where
  "accumulate t g =
     t\<lparr>grad := Some (case grad t of None \<Rightarrow> g | Some old \<Rightarrow> map2 (map2 fadd) old g)\<rparr>"

definition backward :: "autograd \<Rightarrow> metdecode \<Rightarrow> tname store \<Rightarrow> tname store" where
  "backward gradients self st =
     (let (ga, gg) = gradients self (data (st AlphaLogit)) (data (st GammaLogit))
      in st(AlphaLogit := accumulate (st AlphaLogit) ga,
            GammaLogit := accumulate (st GammaLogit) gg))"

text \<open>
  The variables of the loop: the tensors, the optimizer, \<open>info['loss']\<close>,
  \<open>extra_info['loss']\<close>, and the two variables of the early stop.
\<close>

record 's run_state =
  run_store :: "tname store"
  run_optimizer :: "(tname, 's) optimizer"
  loss_history :: "fnum list"
  extra_loss :: "fnum list"
  n_steps_without_improvement :: int
  best_loss :: fnum

text \<open>One turn of the loop; the boolean tells whether the turn ends with \<open>break\<close>.\<close>

definition iteration ::
  "'s adam_update \<Rightarrow> autograd \<Rightarrow> metdecode \<Rightarrow> int \<Rightarrow> 's run_state \<Rightarrow>
     error + 's run_state \<times> bool" where
  "iteration upd gradients self patience s =
     (let st1 = Optimizer_zero_grad (run_optimizer s) (run_store s)
      in case objective self (data (st1 AlphaLogit)) (data (st1 GammaLogit)) of
           Inl e \<Rightarrow> Inl e
         | Inr loss \<Rightarrow>
             (let st2 = backward gradients self st1;
                  (opt', st3) = Optimizer_step upd loss (run_optimizer s, st2);
                  s' = s\<lparr>run_store := st3, run_optimizer := opt',
                         loss_history := loss_history s @ [loss],
                         extra_loss := extra_loss s @ [loss]\<rparr>
              in if fge loss (best_loss s)
                 then (let c = n_steps_without_improvement s + 1
                       in Inr (s'\<lparr>n_steps_without_improvement := c\<rparr>, c \<ge> patience))
                 else Inr (s'\<lparr>best_loss := loss, n_steps_without_improvement := 0\<rparr>, False)))"

fun optimize_loop ::
  "'s adam_update \<Rightarrow> autograd \<Rightarrow> metdecode \<Rightarrow> int \<Rightarrow> nat \<Rightarrow> 's run_state \<Rightarrow>
     error + 's run_state" where
  "optimize_loop upd gradients self patience 0 s = Inr s"
| "optimize_loop upd gradients self patience (Suc n) s =
     (case iteration upd gradients self patience s of
        Inl e \<Rightarrow> Inl e
      | Inr (s', stop) \<Rightarrow>
          if stop then Inr s' else optimize_loop upd gradients self patience n s')"

text \<open>
  The state at the entry of the loop: the two tensors, the optimizer with the one group
  of \<open>alpha_logit\<close> at the rate 0.01, and an infinite best loss.
\<close>

definition initial_state :: "'s \<Rightarrow> matrix \<Rightarrow> matrix \<Rightarrow> 's run_state" where
  "initial_state s0 alpha_logit gamma_logit =
     \<lparr>run_store = (\<lambda>n. case n of
                 AlphaLogit \<Rightarrow> \<lparr>data = alpha_logit, grad = None\<rparr>
               | GammaLogit \<Rightarrow> \<lparr>data = gamma_logit, grad = None\<rparr>),
      run_optimizer = Optimizer_add s0 [AlphaLogit] (Fin (1 / 100)) Optimizer_default,
      loss_history = [], extra_loss = [],
      n_steps_without_improvement = 0, best_loss = PInf\<rparr>"

text \<open>
  \<open>deconvolute\<close>: the proportions, and with them the final state of the run, which
  holds the loss history \<open>info['loss']\<close> and the tensors.
\<close>

definition deconvolute ::
  "solver \<Rightarrow> 's adam_update \<Rightarrow> 's \<Rightarrow> autograd \<Rightarrow> metdecode \<Rightarrow> int \<Rightarrow> int \<Rightarrow>
     error + matrix \<times> 's run_state" where
  "deconvolute solve upd s0 gradients self max_n_iter patience =
     (case init_alpha_and_gamma self solve of
        Inl e \<Rightarrow> Inl e
      | Inr (alpha_logit, gamma_logit) \<Rightarrow>
          (case optimize_loop upd gradients self patience (nat max_n_iter)
                  (initial_state s0 alpha_logit gamma_logit) of
             Inl e \<Rightarrow> Inl e
           | Inr s \<Rightarrow> Inr (softmax (data (run_store s AlphaLogit)), s)))"

text \<open>The default values of \<open>max_n_iter\<close> and \<open>patience\<close>.\<close>

definition max_n_iter_default :: int where
  "max_n_iter_default = 2000"

definition patience_default :: int where
  "patience_default = 1000"

section \<open>utils.py and run.py: the command line\<close>

text \<open>
  \<open>bounded_float_type\<close>, on the result of \<open>float(arg)\<close>: \<open>None\<close> when the conversion
  raises \<open>ValueError\<close>.
\<close>

definition bounded_float_type :: "fnum \<Rightarrow> fnum \<Rightarrow> fnum option \<Rightarrow> error + fnum" where
  "bounded_float_type lb ub parsed =
     (case parsed of
        None \<Rightarrow> Inl ArgumentTypeError
      | Some f \<Rightarrow> if flt f lb \<or> fgt f ub then Inl ArgumentTypeError else Inr f)"

text \<open>
  The option \<open>-beta\<close>: the default 0.5 when it is absent, else the checked value, with
  the lower bound 0 and the upper bound infinity.
\<close>

definition parse_beta :: "fnum option option \<Rightarrow> error + fnum" where
  "parse_beta given =
     (case given of
        None \<Rightarrow> Inr (Fin (1 / 2))
      | Some parsed \<Rightarrow> bounded_float_type (Fin 0) PInf parsed)"

text \<open>
  The comparison of the marker names of the two files, each name given as its parts
  between the hyphens (the result of \<open>split('-')\<close>, never empty).
\<close>

fun check_markers :: "string list list \<Rightarrow> string list list \<Rightarrow> error + unit" where
  "check_markers (m1 # ms1) (m2 # ms2) =
     (if hd m1 \<noteq> hd m2 then Inl ValueError
      else if length m1 < 2 \<or> length m2 < 2 then Inl IndexError
      else if m1 ! 1 \<noteq> m2 ! 1 then Inl ValueError
      else check_markers ms1 ms2)"
| "check_markers ms1 ms2 = Inr ()"

text \<open>
  The script up to the construction of the model. The files are read by
  \<open>load_input_file\<close>, which is not part of the embedding: its results are arguments.
  The constructor is called without \<open>beta\<close>, so with its default. The first two
  assertions compare matrices cell by cell; numpy raises when their shapes cannot be
  broadcast, which is not modelled: the comparison here is over the cells that both
  matrices have.
\<close>

definition run_model ::
  "int \<Rightarrow> fnum option option \<Rightarrow> matrix \<Rightarrow> matrix \<Rightarrow> string list list \<Rightarrow>
     matrix \<Rightarrow> matrix \<Rightarrow> string list list \<Rightarrow> error + metdecode" where
  "run_model n_unknown given_beta M_atlas D_atlas marker_names M_cfdna D_cfdna marker_names2 =
     (case parse_beta given_beta of
        Inl e \<Rightarrow> Inl e
      | Inr args_beta \<Rightarrow>
          (case check_markers marker_names marker_names2 of
             Inl e \<Rightarrow> Inl e
           | Inr _ \<Rightarrow>
               if \<not> all_cells2 fle M_cfdna D_cfdna then Inl AssertionError
               else if \<not> all_cells2 fle M_atlas D_atlas then Inl AssertionError
               else if ncols M_cfdna \<noteq> ncols M_atlas then Inl AssertionError
               else if \<not> (length M_cfdna = length D_cfdna \<and> ncols M_cfdna = ncols D_cfdna)
                 then Inl AssertionError
               else if \<not> (length M_atlas = length D_atlas \<and> ncols M_atlas = ncols D_atlas)
                 then Inl AssertionError
               else MetDecode_init M_atlas D_atlas M_cfdna D_cfdna beta_default n_unknown))"

text \<open>The script up to the result of \<open>deconvolute\<close>, called with its defaults.\<close>

definition run ::
  "solver \<Rightarrow> 's adam_update \<Rightarrow> 's \<Rightarrow> autograd \<Rightarrow> int \<Rightarrow> fnum option option \<Rightarrow>
     matrix \<Rightarrow> matrix \<Rightarrow> string list list \<Rightarrow> matrix \<Rightarrow> matrix \<Rightarrow> string list list \<Rightarrow>
     error + matrix \<times> 's run_state" where
  "run solve upd s0 gradients n_unknown given_beta M_atlas D_atlas marker_names
       M_cfdna D_cfdna marker_names2 =
     (case run_model n_unknown given_beta M_atlas D_atlas marker_names
             M_cfdna D_cfdna marker_names2 of
        Inl e \<Rightarrow> Inl e
      | Inr model \<Rightarrow>
          deconvolute solve upd s0 gradients model max_n_iter_default patience_default)"

section \<open>Predicates and examples for the driver\<close>

text \<open>
  \<open>first_min h k\<close>: in the loss history \<open>h\<close>, iteration \<open>k\<close> is the first to attain
  the smallest loss: every earlier loss is strictly greater and no later loss is
  strictly smaller.
\<close>

definition first_min :: "fnum list \<Rightarrow> nat \<Rightarrow> bool" where
  "first_min h k =
     (k < length h \<and> (\<forall>i<k. flt (h ! k) (h ! i)) \<and>
      (\<forall>j. k < j \<and> j < length h \<longrightarrow> \<not> flt (h ! j) (h ! k)))"

text \<open>
  What the loop keeps of its loss history \<open>h\<close>, its best loss \<open>b\<close> and its stall
  counter \<open>c\<close>, as long as no loss is NaN: either every loss so far is infinite, the
  best loss is still infinite and every iteration has counted; or the best loss is the
  first minimum of the history and the counter is the number of iterations since.
\<close>

definition stall :: "fnum list \<Rightarrow> fnum \<Rightarrow> int \<Rightarrow> bool" where
  "stall h b c =
     ((list_all (\<lambda>l. l = PInf) h \<and> b = PInf \<and> c = int (length h))
       \<or> (\<exists>k. first_min h k \<and> flt (h ! k) PInf \<and> b = h ! k \<and>
              c = int (length h - 1 - k)))"

definition stall_inv :: "'s run_state \<Rightarrow> bool" where
  "stall_inv s = stall (loss_history s) (best_loss s) (n_steps_without_improvement s)"

text \<open>
  A tensor that no Adam object of the optimizer holds, and what the loop keeps of
  \<open>gamma_logit\<close>: its values, that it is not registered, and that it has a gradient
  once an iteration has run.
\<close>

definition unregistered :: "'n \<Rightarrow> ('n, 's) optimizer \<Rightarrow> bool" where
  "unregistered p opt =
     (\<forall>a \<in> set (optimizers opt). \<forall>g \<in> set (param_groups a). p \<notin> set (params g))"

definition gamma_inv :: "matrix \<Rightarrow> 's run_state \<Rightarrow> bool" where
  "gamma_inv g0 s =
     (data (run_store s GammaLogit) = g0 \<and> unregistered GammaLogit (run_optimizer s) \<and>
      length (optimizers (run_optimizer s)) = length (parameters (run_optimizer s)) \<and>
      map params (parameters (run_optimizer s)) = [[AlphaLogit]] \<and>
      (loss_history s \<noteq> [] \<longrightarrow> grad (run_store s GammaLogit) \<noteq> None))"

text \<open>What a finished run shows: its loss history, its result and its \<open>gamma_logit\<close>.\<close>

definition run_losses :: "error + matrix \<times> 's run_state \<Rightarrow> fnum list option" where
  "run_losses r = (case r of Inl e \<Rightarrow> None | Inr (alpha, s) \<Rightarrow> Some (loss_history s))"

definition run_proportions :: "error + matrix \<times> 's run_state \<Rightarrow> matrix option" where
  "run_proportions r = (case r of Inl e \<Rightarrow> None | Inr (alpha, s) \<Rightarrow> Some alpha)"

definition run_gamma_logit :: "error + matrix \<times> 's run_state \<Rightarrow> matrix option" where
  "run_gamma_logit r =
     (case r of Inl e \<Rightarrow> None | Inr (alpha, s) \<Rightarrow> Some (data (run_store s GammaLogit)))"

text \<open>
  For the examples: an object with one tissue, whose rates are those of the one sample,
  so that the loss is 0 and its gradient is zero; a plain gradient step in the place of
  Adam's; and the gradients of a loss that is constant or NaN.
\<close>

definition single_tissue_model :: metdecode where
  "single_tissue_model =
     \<lparr>X_methylated = [[Fin 1, Fin 1]], X_depths = [[Fin 2, Fin 2]],
      R_methylated = [[Fin 1, Fin 1]], R_depths = [[Fin 2, Fin 2]],
      beta = Fin 1, n_known_tissues = 1, n_unknown_tissues = 0, n_tissues = 1,
      R_interleaved = [[Fin 1, Fin 1, Fin 1, Fin 1]],
      X_interleaved = [[Fin 1, Fin 1, Fin 1, Fin 1]], info_loss = []\<rparr>"

definition descent_update :: "unit adam_update" where
  "descent_update rate s t =
     (s, case grad t of
           None \<Rightarrow> data t
         | Some g \<Rightarrow> map2 (map2 (\<lambda>x d. fsub x (fmul rate d))) (data t) g)"

definition zero_gradients :: autograd where
  "zero_gradients self a g = (map (map (\<lambda>_. Fin 0)) a, map (map (\<lambda>_. Fin 0)) g)"

definition nan_gradients :: autograd where
  "nan_gradients self a g = (map (map (\<lambda>_. NaN)) a, map (map (\<lambda>_. NaN)) g)"

section \<open>Facts about the numbers\<close>

lemma flt_not_fle: "flt a b \<Longrightarrow> \<not> fle b a"
  by (cases a; cases b) (auto simp: fle_def)

lemma clip_real: "clip (Fin a) (Fin lo) (Fin hi) = Fin (min (max a lo) hi)"
  by (simp add: clip_def fmaximum_def fminimum_def isnan_def min_def max_def)

lemma funpow_clip_real:
  "((\<lambda>y. clip (fmul y (Fin u)) (Fin lo) (Fin hi)) ^^ n) (Fin x)
     = Fin (((\<lambda>y. min (max (y * u) lo) hi) ^^ n) x)"
  by (induction n arbitrary: x) (simp_all del: funpow.simps add: funpow_Suc_right clip_real)

lemma powr_powi_Suc: "2 powr (real_of_int e + 1) = (2::real) powi (e + 1)"
  using powr_real_of_int'[of 2 "e + 1"] by simp

lemma binade_eq:
  assumes "2 powi e \<le> \<bar>x\<bar>" "\<bar>x\<bar> < 2 powi (e + 1)"
  shows "binade x = e"
proof -
  have p: "0 < \<bar>x\<bar>" using assms(1) by (smt (verit) zero_less_power_int)
  show ?thesis
    unfolding binade_def
    using assms
    by (subst floor_log_eq_powr_iff[OF p]) (simp_all add: powr_real_of_int' powr_powi_Suc)
qed

lemma binade_bounds:
  assumes "x \<noteq> 0"
  shows "2 powi binade x \<le> \<bar>x\<bar>" "\<bar>x\<bar> < 2 powi (binade x + 1)"
proof -
  have p: "0 < \<bar>x\<bar>" using assms by simp
  have "\<lfloor>log 2 \<bar>x\<bar>\<rfloor> = binade x" by (simp add: binade_def)
  then have "2 powr real_of_int (binade x) \<le> \<bar>x\<bar> \<and> \<bar>x\<bar> < 2 powr real_of_int (binade x + 1)"
    using floor_log_eq_powr_iff[OF p, of 2 "binade x"] by simp
  then show "2 powi binade x \<le> \<bar>x\<bar>" "\<bar>x\<bar> < 2 powi (binade x + 1)"
    by (simp_all add: powr_real_of_int' powr_powi_Suc)
qed

text \<open>The rounding of a number whose exponent is known.\<close>

lemma round64_eval:
  assumes "2 powi e \<le> \<bar>x\<bar>" "\<bar>x\<bar> < 2 powi (e + 1)"
  shows "round64 x = of_int (round_half_even (x / 2 powi (e - 52))) * 2 powi (e - 52)"
proof -
  have "x \<noteq> 0" using assms(1) by (smt (verit) zero_less_power_int)
  then show ?thesis using binade_eq[OF assms] by (simp add: round64_def)
qed

lemma round_half_even_ge: "\<lfloor>q\<rfloor> \<le> round_half_even q"
  by (simp add: round_half_even_def Let_def)

lemma round64_zero [simp]: "round64 0 = 0"
  by (simp add: round64_def)

lemma round64_pos:
  assumes "0 < x"
  shows "0 < round64 x"
proof -
  define e where "e = binade x"
  have b: "2 powi e \<le> x" using binade_bounds(1)[of x] assms by (simp add: e_def)
  have u: "0 < (2::real) powi (e - 52)" by simp
  have "(2::real) powi e = 2 powi 52 * 2 powi (e - 52)"
    by (simp add: power_int_add[symmetric] del: power_int_numeral)
  then have "2 powi 52 \<le> x / 2 powi (e - 52)"
    using b u by (simp add: pos_le_divide_eq)
  moreover have "(1::real) \<le> 2 powi 52" by simp
  ultimately have "(1::real) \<le> x / 2 powi (e - 52)" by linarith
  then have "1 \<le> \<lfloor>x / 2 powi (e - 52)\<rfloor>" by linarith
  then have "1 \<le> round_half_even (x / 2 powi (e - 52))"
    using round_half_even_ge[of "x / 2 powi (e - 52)"] by linarith
  then have "0 < real_of_int (round_half_even (x / 2 powi (e - 52))) * 2 powi (e - 52)"
    using u by (intro mult_pos_pos) simp_all
  then show ?thesis using assms by (simp add: round64_def e_def)
qed

lemma round64_nonneg: "0 \<le> x \<Longrightarrow> 0 \<le> round64 x"
  using round64_pos[of x] by (cases "x = 0") simp_all

text \<open>The error of a rounding is at most the fraction \<open>2^-53\<close> of the number.\<close>

lemma round_half_even_error: "\<bar>of_int (round_half_even q) - q\<bar> \<le> 1 / 2"
proof -
  have "0 \<le> q - of_int \<lfloor>q\<rfloor>" "q - of_int \<lfloor>q\<rfloor> < 1" by linarith+
  then show ?thesis by (auto simp: round_half_even_def Let_def)
qed

lemma round64_error: "\<bar>round64 x - x\<bar> \<le> \<bar>x\<bar> / 2 ^ 53"
proof (cases "x = 0")
  case True
  then show ?thesis by simp
next
  case False
  define u where "u = (2::real) powi (binade x - 52)"
  define n where "n = round_half_even (x / u)"
  have u: "0 < u" by (simp add: u_def)
  have r: "round64 x = of_int n * u" using False by (simp add: round64_def u_def n_def)
  have "(2::real) powi binade x = 2 powi 52 * 2 powi (binade x - 52)"
    by (simp add: power_int_add[symmetric] del: power_int_numeral)
  then have b: "2 ^ 52 * u \<le> \<bar>x\<bar>" using binade_bounds(1)[OF False] by (simp add: u_def)
  have "round64 x - x = (of_int n - x / u) * u" using u by (simp add: r field_simps)
  then have "\<bar>round64 x - x\<bar> = \<bar>of_int n - x / u\<bar> * u" using u by (simp add: abs_mult)
  also have "\<dots> \<le> 1 / 2 * u"
    using round_half_even_error[of "x / u"] u unfolding n_def by (intro mult_right_mono) simp_all
  also have "\<dots> = 2 ^ 52 * u / 2 ^ 53" by simp
  also have "\<dots> \<le> \<bar>x\<bar> / 2 ^ 53" using b by (intro divide_right_mono) simp_all
  finally show ?thesis .
qed

lemma round64_bounds:
  assumes "0 \<le> x"
  shows "x - x / 2 ^ 53 \<le> round64 x" and "round64 x \<le> x + x / 2 ^ 53"
proof -
  have "\<bar>round64 x - x\<bar> \<le> x / 2 ^ 53" using round64_error[of x] assms by simp
  then show "x - x / 2 ^ 53 \<le> round64 x" "round64 x \<le> x + x / 2 ^ 53" by linarith+
qed

text \<open>A rounded number is a float: rounding it again does not change it.\<close>

lemma round_half_even_int [simp]: "round_half_even (of_int k) = k"
  by (simp add: round_half_even_def Let_def)

lemma round_half_even_cases:
  obtains (lo) "round_half_even q = \<lfloor>q\<rfloor>"
  | (hi) "round_half_even q = \<lfloor>q\<rfloor> + 1" "of_int \<lfloor>q\<rfloor> < q"
proof (cases "q - of_int \<lfloor>q\<rfloor> < 1 / 2 \<or> (q - of_int \<lfloor>q\<rfloor> = 1 / 2 \<and> even \<lfloor>q\<rfloor>)")
  case True
  then have "round_half_even q = \<lfloor>q\<rfloor>"
    unfolding round_half_even_def Let_def by (simp only: if_True)
  then show ?thesis by (rule lo)
next
  case False
  then have "round_half_even q = \<lfloor>q\<rfloor> + 1"
    unfolding round_half_even_def Let_def by (simp only: if_False)
  moreover have "of_int \<lfloor>q\<rfloor> < q" using False by linarith
  ultimately show ?thesis by (rule hi)
qed

lemma round_half_even_range:
  assumes "2 ^ 52 \<le> \<bar>q\<bar>" "\<bar>q\<bar> < 2 ^ 53"
  shows "2 ^ 52 \<le> \<bar>round_half_even q\<bar>" "\<bar>round_half_even q\<bar> \<le> 2 ^ 53"
proof -
  define K :: int where "K = 2 ^ 52"
  define k :: real where "k = of_int K"
  define n where "n = \<lfloor>q\<rfloor>"
  define r :: real where "r = of_int n"
  have K: "(2::real) ^ 52 = k" "(2::real) ^ 53 = 2 * k"
    "(2::int) ^ 52 = K" "(2::int) ^ 53 = 2 * K"
    by (simp_all add: K_def k_def)
  have a: "k \<le> \<bar>q\<bar>" "\<bar>q\<bar> < 2 * k" using assms unfolding K(1,2) .
  have f: "r \<le> q" "q < r + 1" unfolding r_def n_def by linarith+
  have int: "K \<le> m \<longleftrightarrow> k \<le> of_int m" "m \<le> - K \<longleftrightarrow> of_int m \<le> - k"
    "m \<le> 2 * K \<longleftrightarrow> of_int m \<le> 2 * k" "- (2 * K) \<le> m \<longleftrightarrow> - (2 * k) \<le> of_int m"
    "m < 2 * K \<longleftrightarrow> of_int m < 2 * k" "m < - K \<longleftrightarrow> of_int m < - k"
    "- (2 * K) < m + 1 \<longleftrightarrow> - (2 * k) < of_int m + 1"
    "K \<le> m + 1 \<longleftrightarrow> k \<le> of_int m + 1"
    for m
    unfolding k_def by linarith+
  have pos: "0 \<le> q \<Longrightarrow> K \<le> n \<and> n < 2 * K"
    unfolding int r_def[symmetric]
  proof -
    assume q: "0 \<le> q"
    then have "k \<le> q" using a(1) by linarith
    then have "K \<le> n" unfolding n_def k_def by (simp only: le_floor_iff)
    then have "k \<le> r" unfolding r_def int .
    moreover have "r < 2 * k" using q a(2) f(1) by linarith
    ultimately show "k \<le> r \<and> r < 2 * k" by blast
  qed
  have neg: "\<not> 0 \<le> q \<Longrightarrow> n \<le> - K \<and> - (2 * K) < n + 1"
    unfolding int r_def[symmetric] using a f by linarith
  have neg2: "\<not> 0 \<le> q \<Longrightarrow> r < q \<Longrightarrow> n < - K"
    unfolding int r_def[symmetric] using a by linarith
  have "K \<le> \<bar>round_half_even q\<bar> \<and> \<bar>round_half_even q\<bar> \<le> 2 * K"
  proof (cases q rule: round_half_even_cases)
    case lo
    then show ?thesis using pos neg unfolding n_def[symmetric] by (cases "0 \<le> q") linarith+
  next
    case hi
    then show ?thesis using pos neg neg2 unfolding n_def[symmetric] r_def[symmetric]
      by (cases "0 \<le> q") linarith+
  qed
  then show "2 ^ 52 \<le> \<bar>round_half_even q\<bar>" "\<bar>round_half_even q\<bar> \<le> 2 ^ 53"
    unfolding K(3,4) by simp_all
qed

lemma round64_idem: "round64 (round64 x) = round64 x"
proof (cases "x = 0")
  case True
  then show ?thesis by simp
next
  case False
  define e where "e = binade x"
  define u where "u = (2::real) powi (e - 52)"
  define n where "n = round_half_even (x / u)"
  have u: "0 < u" by (simp add: u_def)
  have y: "round64 x = of_int n * u" using False by (simp add: round64_def u_def n_def e_def)
  have "(2::real) powi e = 2 powi 52 * u"
    unfolding u_def by (simp add: power_int_add[symmetric] del: power_int_numeral)
  then have p52: "(2::real) powi e = 2 ^ 52 * u" by simp
  have "(2::real) powi (e + 1) = 2 powi e * 2" by (simp add: power_int_add)
  then have p53: "(2::real) powi (e + 1) = 2 ^ 53 * u" using p52 by simp
  have "2 ^ 52 * u \<le> \<bar>x\<bar>" "\<bar>x\<bar> < 2 ^ 53 * u"
    using binade_bounds[OF False] p52 p53 by (simp_all add: e_def)
  then have "2 ^ 52 \<le> \<bar>x / u\<bar>" "\<bar>x / u\<bar> < 2 ^ 53"
    using u by (simp_all add: abs_divide pos_le_divide_eq pos_divide_less_eq abs_of_pos)
  from round_half_even_range[OF this]
  have nr: "2 ^ 52 \<le> \<bar>n\<bar>" "\<bar>n\<bar> \<le> 2 ^ 53" by (simp_all add: n_def)
  have ay: "\<bar>of_int n * u\<bar> = of_int \<bar>n\<bar> * u" using u by (simp add: abs_mult)
  show ?thesis
  proof (cases "\<bar>n\<bar> = 2 ^ 53")
    case True
    have "\<bar>of_int n * u\<bar> = 2 powi (e + 1)" unfolding ay p53 using True by simp
    moreover have "(2::real) powi (e + 1 + 1) = 2 powi (e + 1) * 2"
      using power_int_add[of "2::real" "e + 1" 1] by simp
    moreover have "0 < (2::real) powi (e + 1)" by simp
    ultimately have b: "2 powi (e + 1) \<le> \<bar>of_int n * u\<bar>"
      "\<bar>of_int n * u\<bar> < 2 powi (e + 1 + 1)"
      by linarith+
    have "e + 1 - 52 = (e - 52) + 1" by simp
    then have u2: "(2::real) powi (e + 1 - 52) = 2 * u"
      unfolding u_def using power_int_add[of "2::real" "e - 52" 1] by simp
    have "even \<bar>n\<bar>" unfolding True by simp
    then have "even n" by simp
    then obtain k where k: "n = 2 * k" by (elim evenE)
    have h: "of_int n * u / (2 * u) = (of_int k :: real)" using u k by simp
    have "round64 (of_int n * u) = of_int k * (2 * u)"
      by (subst round64_eval[OF b]) (simp only: u2 h round_half_even_int)
    then show ?thesis unfolding y using k by simp
  next
    case False
    then have "\<bar>n\<bar> < 2 ^ 53" using nr(2) by simp
    then have "of_int \<bar>n\<bar> < (of_int (2 ^ 53) :: real)" by (simp only: of_int_less_iff)
    then have "of_int \<bar>n\<bar> < (2 ^ 53 :: real)" by simp
    moreover have "(of_int (2 ^ 52) :: real) \<le> of_int \<bar>n\<bar>"
      using nr(1) by (simp only: of_int_le_iff)
    then have "(2 ^ 52 :: real) \<le> of_int \<bar>n\<bar>" by simp
    ultimately have b: "2 powi e \<le> \<bar>of_int n * u\<bar>" "\<bar>of_int n * u\<bar> < 2 powi (e + 1)"
      unfolding ay p52 p53 using u by simp_all
    have h: "of_int n * u / u = (of_int n :: real)" using u by simp
    have "round64 (of_int n * u) = of_int n * u"
      by (subst round64_eval[OF b]) (simp only: u_def[symmetric] h round_half_even_int)
    then show ?thesis unfolding y .
  qed
qed


text \<open>
  Numbers that are floats round to themselves. The last two lemmas are the two
  roundings of \<open>lb + (ub - lb)\<close> for the floats \<open>lb\<close> and \<open>ub\<close> nearest to 1/3 and to
  5/6, each of them a tie that goes to the even neighbour.
\<close>

lemma round64_half: "round64 (1 / 2) = 1 / 2"
  by (subst round64_eval[of "-1"]) (simp_all add: round_half_even_def Let_def)

lemma round64_quarter: "round64 (1 / 4) = 1 / 4"
  by (subst round64_eval[of "-2"]) (simp_all add: round_half_even_def Let_def)

lemma round64_three_quarters: "round64 (3 / 4) = 3 / 4"
  by (subst round64_eval[of "-1"]) (simp_all add: round_half_even_def Let_def)







section \<open>The scheduler\<close>

subsection \<open>One call of step\<close>

lemma Optimizer_step_effect:
  assumes "cursor opt < length (parameters opt)"
    and "length (optimizers opt) = length (parameters opt)"
    and "Optimizer_step upd loss (opt, st) = (opt', st')"
    and "previous = (cursor opt + length (parameters opt) - 1) mod length (parameters opt)"
    and "rate = clip (fmul (lr (parameters opt ! previous))
                  (if fle loss (last_loss opt) then alpha_up opt else alpha_down opt))
               (lr_lb opt) (lr_ub opt)"
  shows "lr (parameters opt' ! previous) = rate
       \<and> (\<forall>g \<in> set (param_groups (optimizers opt' ! previous)). lr g = rate)
       \<and> (\<forall>i < length (parameters opt). i \<noteq> previous \<longrightarrow>
            parameters opt' ! i = parameters opt ! i
          \<and> map lr (param_groups (optimizers opt' ! i))
              = map lr (param_groups (optimizers opt ! i)))
       \<and> last_loss opt' = loss
       \<and> cursor opt' = (cursor opt + 1) mod length (parameters opt)"
proof -
  let ?n = "length (parameters opt)"
  let ?os1 = "(optimizers opt)[previous := (optimizers opt ! previous)
          \<lparr>param_groups :=
             map (\<lambda>g. g\<lparr>lr := rate\<rparr>) (param_groups (optimizers opt ! previous))\<rparr>]"
  have "0 < ?n" using assms(1) by (cases "parameters opt") simp_all
  then have p: "previous < ?n" unfolding assms(4) by (rule mod_less_divisor)
  obtain a' where a': "adam_step upd (?os1 ! cursor opt) st = (a', st')"
    and opt': "opt' = opt\<lparr>parameters := (parameters opt)[previous :=
                      (parameters opt ! previous)\<lparr>lr := rate\<rparr>],
                   optimizers := ?os1[cursor opt := a'],
                   last_loss := loss,
                   cursor := (cursor opt + 1) mod ?n\<rparr>"
    using assms(1,3,4,5) by (auto simp: Optimizer_step_def Let_def split: prod.splits)
  have pg: "param_groups a' = param_groups (?os1 ! cursor opt)"
    using a' by (auto simp: adam_step_def split: prod.splits)
  show ?thesis
    using p assms(1,2) pg by (auto simp: opt' nth_list_update)
qed

text \<open>
  Claim C7, as the code has it. A call of \<open>step\<close> on an optimizer with at least one
  group adapts the group before the cursor (circularly): the loss is compared with
  \<open>last_loss\<close>, the single reference loss of the optimizer, which is the loss of the
  preceding call whichever group that call adapted; the rate of the group is multiplied
  by \<open>alpha_up\<close> when the loss is at most the reference and by \<open>alpha_down\<close> otherwise,
  clipped into \<open>[lr_lb, lr_ub]\<close> and written to the group and to its Adam object; the
  rates of the other groups stay; \<open>last_loss\<close> becomes the loss and the cursor advances.
\<close>

theorem step_adapts_previous_group_against_shared_last_loss:
  "cursor opt < length (parameters opt) \<Longrightarrow>
   length (optimizers opt) = length (parameters opt) \<Longrightarrow>
   (let n = length (parameters opt);
        previous = (cursor opt + n - 1) mod n;
        rate = clip (fmul (lr (parameters opt ! previous))
                  (if fle loss (last_loss opt) then alpha_up opt else alpha_down opt))
               (lr_lb opt) (lr_ub opt);
        opt' = fst (Optimizer_step upd loss (opt, st))
    in lr (parameters opt' ! previous) = rate
       \<and> (\<forall>g \<in> set (param_groups (optimizers opt' ! previous)). lr g = rate)
       \<and> (\<forall>i < n. i \<noteq> previous \<longrightarrow>
            parameters opt' ! i = parameters opt ! i
          \<and> map lr (param_groups (optimizers opt' ! i))
              = map lr (param_groups (optimizers opt ! i)))
       \<and> last_loss opt' = loss
       \<and> cursor opt' = (cursor opt + 1) mod n)"
  unfolding Let_def
  by (rule Optimizer_step_effect [where st' = "snd (Optimizer_step upd loss (opt, st))"])
     simp_all

theorem step_adapts_previous_group_against_shared_last_loss_witness:
  "(let opt = Optimizer_add () [1] (Fin (1 / 100))
                (Optimizer_add () [0::nat] (Fin (1 / 100)) Optimizer_default);
        opt' = fst (Optimizer_step (\<lambda>r s t. (s, data t)) (Fin 5)
                 (opt, \<lambda>_. \<lparr>data = [], grad = None\<rparr>))
    in cursor opt < length (parameters opt)
       \<and> length (optimizers opt) = length (parameters opt)
       \<and> lr (parameters opt' ! 1) = Fin (203 / 20000)
       \<and> parameters opt' ! 0 = parameters opt ! 0
       \<and> last_loss opt' = Fin 5
       \<and> cursor opt' = 1)"
  using step_adapts_previous_group_against_shared_last_loss
    [of "Optimizer_add () [1] (Fin (1 / 100))
           (Optimizer_add () [0::nat] (Fin (1 / 100)) Optimizer_default)"
        "Fin 5" "\<lambda>r s t. (s, data t)" "\<lambda>_. \<lparr>data = [], grad = None\<rparr>"]
  by (simp add: Optimizer_add_def Optimizer_default_def Optimizer_init_def Let_def
      fle_def clip_real)

text \<open>
  The claim fails as it is stated: with two groups and the losses 5, 3, 4 the third call
  adapts group 1 and compares 4 with 3, the loss of the second call, so the rate of
  group 1 decreases; against the loss 5 that group 1 saw last, it would increase.
\<close>

theorem step_per_group_reference_counterexample:
  "map lr (parameters (fst (Optimizer_steps (\<lambda>r s t. (s, data t)) [Fin 5, Fin 3, Fin 4]
        (Optimizer_add () [1] (Fin (1 / 100))
           (Optimizer_add () [0::nat] (Fin (1 / 100)) Optimizer_default),
         \<lambda>_. \<lparr>data = [], grad = None\<rparr>))))
     = [Fin (203 / 20000), Fin (1827 / 200000)] \<and>
   s_rates (fold (step_per_group_reference (Fin (1015 / 1000)) (Fin (9 / 10)) (Fin 0)
                    (Fin 100000))
        [Fin 5, Fin 3, Fin 4]
        \<lparr>s_rates = [Fin (1 / 100), Fin (1 / 100)], s_refs = [PInf, PInf], s_cursor = 0\<rparr>)
     = [Fin (203 / 20000), Fin (41209 / 4000000)]"
  by (simp add: Optimizer_step_def Optimizer_add_def Optimizer_default_def Optimizer_init_def
      Let_def adam_step_def fle_def clip_def fmaximum_def fminimum_def isnan_def
      step_per_group_reference_def)

subsection \<open>A single group\<close>

lemma step_single_group:
  assumes "single_group opt"
  shows "single_group (fst (Optimizer_step upd loss (opt, st)))"
    and "lr (parameters (fst (Optimizer_step upd loss (opt, st))) ! 0) =
          clip (fmul (lr (parameters opt ! 0))
             (if fle loss (last_loss opt) then alpha_up opt else alpha_down opt))
             (lr_lb opt) (lr_ub opt)"
    and "last_loss (fst (Optimizer_step upd loss (opt, st))) = loss"
    and "alpha_up (fst (Optimizer_step upd loss (opt, st))) = alpha_up opt"
    and "alpha_down (fst (Optimizer_step upd loss (opt, st))) = alpha_down opt"
    and "lr_lb (fst (Optimizer_step upd loss (opt, st))) = lr_lb opt"
    and "lr_ub (fst (Optimizer_step upd loss (opt, st))) = lr_ub opt"
  using assms
  by (simp_all add: single_group_def Optimizer_step_def Let_def split: prod.splits)

lemma steps_up:
  "single_group opt \<Longrightarrow> successively (\<lambda>a b. fle b a) (last_loss opt # ls) \<Longrightarrow>
   lr (parameters (fst (Optimizer_steps upd ls (opt, st))) ! 0) =
     ((\<lambda>x. clip (fmul x (alpha_up opt)) (lr_lb opt) (lr_ub opt)) ^^ length ls)
        (lr (parameters opt ! 0))"
proof (induction ls arbitrary: opt st)
  case Nil
  then show ?case by simp
next
  case (Cons l ls)
  obtain opt' st' where os: "Optimizer_step upd l (opt, st) = (opt', st')"
    by (cases "Optimizer_step upd l (opt, st)")
  have le: "fle l (last_loss opt)" using Cons.prems(2) by simp
  have s': "single_group opt'"
    using step_single_group(1)[OF Cons.prems(1), of upd l st] os by simp
  have ll: "last_loss opt' = l"
    using step_single_group(3)[OF Cons.prems(1), of upd l st] os by simp
  have ch: "successively (\<lambda>a b. fle b a) (last_loss opt' # ls)"
    using Cons.prems(2) ll by simp
  have r: "lr (parameters opt' ! 0)
      = clip (fmul (lr (parameters opt ! 0)) (alpha_up opt)) (lr_lb opt) (lr_ub opt)"
    using step_single_group(2)[OF Cons.prems(1), of upd l st] os le by simp
  have c: "alpha_up opt' = alpha_up opt" "lr_lb opt' = lr_lb opt" "lr_ub opt' = lr_ub opt"
    using step_single_group(4,6,7)[OF Cons.prems(1), of upd l st] os by simp_all
  show ?case
    using Cons.IH[OF s' ch, of st'] os r c
    by (simp del: funpow.simps add: funpow_Suc_right)
qed

lemma steps_down:
  "single_group opt \<Longrightarrow> successively flt (last_loss opt # ls) \<Longrightarrow>
   lr (parameters (fst (Optimizer_steps upd ls (opt, st))) ! 0) =
     ((\<lambda>x. clip (fmul x (alpha_down opt)) (lr_lb opt) (lr_ub opt)) ^^ length ls)
        (lr (parameters opt ! 0))"
proof (induction ls arbitrary: opt st)
  case Nil
  then show ?case by simp
next
  case (Cons l ls)
  obtain opt' st' where os: "Optimizer_step upd l (opt, st) = (opt', st')"
    by (cases "Optimizer_step upd l (opt, st)")
  have le: "\<not> fle l (last_loss opt)" using Cons.prems(2) by (simp add: flt_not_fle)
  have s': "single_group opt'"
    using step_single_group(1)[OF Cons.prems(1), of upd l st] os by simp
  have ll: "last_loss opt' = l"
    using step_single_group(3)[OF Cons.prems(1), of upd l st] os by simp
  have ch: "successively flt (last_loss opt' # ls)"
    using Cons.prems(2) ll by simp
  have r: "lr (parameters opt' ! 0)
      = clip (fmul (lr (parameters opt ! 0)) (alpha_down opt)) (lr_lb opt) (lr_ub opt)"
    using step_single_group(2)[OF Cons.prems(1), of upd l st] os le by simp
  have c: "alpha_down opt' = alpha_down opt" "lr_lb opt' = lr_lb opt"
    "lr_ub opt' = lr_ub opt"
    using step_single_group(5,6,7)[OF Cons.prems(1), of upd l st] os by simp_all
  show ?case
    using Cons.IH[OF s' ch, of st'] os r c
    by (simp del: funpow.simps add: funpow_Suc_right)
qed

lemma single_group_fresh: "single_group (Optimizer_add s0 ps rate Optimizer_default)"
  by (simp add: single_group_def Optimizer_add_def Optimizer_default_def Optimizer_init_def
      Let_def)

lemma fresh_fields:
  "last_loss (Optimizer_add s0 ps rate Optimizer_default) = PInf"
  "alpha_up (Optimizer_add s0 ps rate Optimizer_default) = Fin (1015 / 1000)"
  "alpha_down (Optimizer_add s0 ps rate Optimizer_default) = Fin (9 / 10)"
  "lr_lb (Optimizer_add s0 ps rate Optimizer_default) = Fin 0"
  "lr_ub (Optimizer_add s0 ps rate Optimizer_default) = Fin 100000"
  "lr (parameters (Optimizer_add s0 ps rate Optimizer_default) ! 0) = rate"
  by (simp_all add: Optimizer_add_def Optimizer_default_def Optimizer_init_def Let_def)

text \<open>
  Claim C6, as the code has it. On a new optimizer with the default factors and one
  group of rate \<open>r\<close>: fed losses that never increase (and are not NaN), every call
  multiplies the rate by 1.015 and clips it into \<open>[0, 100000]\<close>; fed strictly increasing
  losses, the first call still multiplies by 1.015, because it compares its loss with the
  initial reference loss, infinity, and every later call multiplies by 0.9, clipped into
  \<open>[0, 100000]\<close>.
\<close>

theorem single_group_rate_follows_loss_trend:
  "(successively (\<lambda>a b. fle b a) (PInf # ls) \<longrightarrow>
       lr (parameters (fst (Optimizer_steps upd ls
             (Optimizer_add s0 ps (Fin r) Optimizer_default, st))) ! 0)
       = Fin (((\<lambda>x. min (max (x * (1015 / 1000)) 0) 100000) ^^ length ls) r)) \<and>
   (\<not> isnan l \<and> successively flt (l # ls) \<longrightarrow>
       lr (parameters (fst (Optimizer_steps upd (l # ls)
             (Optimizer_add s0 ps (Fin r) Optimizer_default, st))) ! 0)
       = Fin (((\<lambda>x. min (max (x * (9 / 10)) 0) 100000) ^^ length ls)
                (min (max (r * (1015 / 1000)) 0) 100000)))"
proof (intro conjI impI)
  let ?opt = "Optimizer_add s0 ps (Fin r) Optimizer_default :: ('a, 'b) optimizer"
  assume "successively (\<lambda>a b. fle b a) (PInf # ls)"
  then show "lr (parameters (fst (Optimizer_steps upd ls (?opt, st))) ! 0)
           = Fin (((\<lambda>x. min (max (x * (1015 / 1000)) 0) 100000) ^^ length ls) r)"
    using steps_up[OF single_group_fresh, of s0 ps "Fin r" ls upd st]
    by (simp add: fresh_fields funpow_clip_real)
next
  let ?opt = "Optimizer_add s0 ps (Fin r) Optimizer_default :: ('a, 'b) optimizer"
  assume a: "\<not> isnan l \<and> successively flt (l # ls)"
  obtain opt' st' where os: "Optimizer_step upd l (?opt, st) = (opt', st')"
    by (cases "Optimizer_step upd l (?opt, st)")
  have le: "fle l PInf" using a by (cases l) (simp_all add: fle_def isnan_def)
  have s': "single_group opt'"
    using step_single_group(1)[OF single_group_fresh, of upd l s0 ps "Fin r" st] os by simp
  have f: "last_loss opt' = l" "alpha_down opt' = Fin (9 / 10)" "lr_lb opt' = Fin 0"
    "lr_ub opt' = Fin 100000"
    using step_single_group(3,5,6,7)[OF single_group_fresh, of upd l s0 ps "Fin r" st] os
    by (simp_all add: fresh_fields)
  have r1: "lr (parameters opt' ! 0) = Fin (min (max (r * (1015 / 1000)) 0) 100000)"
    using step_single_group(2)[OF single_group_fresh, of upd l s0 ps "Fin r" st] os le
    by (simp add: fresh_fields clip_real)
  have ch: "successively flt (last_loss opt' # ls)" using a f by simp
  show "lr (parameters (fst (Optimizer_steps upd (l # ls) (?opt, st))) ! 0)
         = Fin (((\<lambda>x. min (max (x * (9 / 10)) 0) 100000) ^^ length ls)
                  (min (max (r * (1015 / 1000)) 0) 100000))"
    using steps_down[OF s' ch, of upd st'] os f r1
    by (simp add: funpow_clip_real)
qed

theorem single_group_rate_follows_loss_trend_witness:
  "successively (\<lambda>a b. fle b a) (PInf # [Fin 2]) \<and>
   \<not> isnan (Fin 1) \<and> successively flt (Fin 1 # [Fin 2]) \<and>
   lr (parameters (fst (Optimizer_steps (\<lambda>r s t. (s, data t)) [Fin 2]
        (Optimizer_add () [0::nat] (Fin (1 / 100)) Optimizer_default,
         \<lambda>_. \<lparr>data = [], grad = None\<rparr>))) ! 0) = Fin (203 / 20000) \<and>
   lr (parameters (fst (Optimizer_steps (\<lambda>r s t. (s, data t)) [Fin 1, Fin 2]
        (Optimizer_add () [0::nat] (Fin (1 / 100)) Optimizer_default,
         \<lambda>_. \<lparr>data = [], grad = None\<rparr>))) ! 0) = Fin (1827 / 200000)"
  using single_group_rate_follows_loss_trend
    [of "[Fin 2]" "\<lambda>r s t. (s, data t)" "()" "[0::nat]" "1 / 100"
        "\<lambda>_. \<lparr>data = [], grad = None\<rparr>" "Fin 1"]
  by (simp add: fle_def isnan_def)

text \<open>
  The claim fails as it is stated: on a new optimizer fed the increasing losses 1, 2 the
  rate 0.01 becomes 0.01 * 1.015 * 0.9 and not 0.01 * 0.9 * 0.9.
\<close>

theorem increasing_losses_first_call_counterexample:
  "successively flt [Fin 1, Fin 2] \<and>
   lr (parameters (fst (Optimizer_steps (\<lambda>r s t. (s, data t)) [Fin 1, Fin 2]
        (Optimizer_add () [0::nat] (Fin (1 / 100)) Optimizer_default,
         \<lambda>_. \<lparr>data = [], grad = None\<rparr>))) ! 0)
     \<noteq> Fin ((1 / 100) * (9 / 10) * (9 / 10))"
  by (simp add: Optimizer_step_def Optimizer_add_def Optimizer_default_def Optimizer_init_def
      Let_def adam_step_def fle_def clip_def fmaximum_def fminimum_def isnan_def)

section \<open>Pseudo-counts\<close>

lemma fmul_one [simp]: "fmul (Fin 1) x = x"
  by (cases x) (simp_all add: inf_times_def)

lemma same_shape_length: "same_shape M N \<Longrightarrow> length N = length M"
  by (auto simp: same_shape_def dest: list_all2_lengthD)

lemma same_shape_row:
  "same_shape M N \<Longrightarrow> i < length M \<Longrightarrow> length (M ! i) = ncols M \<and> length (N ! i) = ncols M"
  by (auto simp: same_shape_def rectangular_def list_all_length list_all2_conv_all_nth)

lemma same_shape_ncols: "same_shape M N \<Longrightarrow> ncols N = ncols M"
  by (cases M; cases N) (auto simp: same_shape_def ncols_def)

lemma length_sum_axis0 [simp]: "length (sum_axis0 M) = ncols M"
  by (simp add: sum_axis0_def)

lemma length_sum_axis1 [simp]: "length (sum_axis1 M) = length M"
  by (simp add: sum_axis1_def)

lemma length_marginal_meth [simp]:
  "length (marginal_meth pc a ms ds) = min (length ms) (length ds)"
  by (simp add: marginal_meth_def)

lemma length_col_meth: "same_shape M N \<Longrightarrow> length (col_meth pc M N) = ncols M"
  by (simp add: col_meth_def same_shape_ncols)

lemma length_row_meth: "same_shape M N \<Longrightarrow> length (row_meth pc M N) = length M"
  by (simp add: row_meth_def same_shape_length)

lemma length_meth_prior: "same_shape M N \<Longrightarrow> length (meth_prior pc M N) = length M"
  by (simp add: meth_prior_def clip_matrix_def outer_def length_row_meth)

lemma length_meth_prior_row:
  "same_shape M N \<Longrightarrow> i < length M \<Longrightarrow> length (meth_prior pc M N ! i) = ncols M"
  by (simp add: meth_prior_def clip_matrix_def outer_def length_row_meth length_col_meth)

lemma meth_prior_cell:
  assumes "same_shape M N" "i < length M" "j < ncols M"
  shows "meth_prior pc M N ! i ! j
           = clip (col_meth pc M N ! j) (Fin (1 / 100)) (Fin (99 / 100))"
  using assms
  by (simp add: meth_prior_def clip_matrix_def outer_def length_row_meth length_col_meth)

lemma imputed_cell:
  assumes "same_shape M N" "i < length M" "j < ncols M"
  shows "impute_methylated pc M N (meth_prior pc M N) ! i ! j
           = (if degenerate (M ! i ! j) (N ! i ! j)
              then fadd (M ! i ! j)
                     (fmul pc (clip (col_meth pc M N ! j) (Fin (1 / 100)) (Fin (99 / 100))))
              else M ! i ! j)"
    and "impute_depths pc M N ! i ! j
           = (if degenerate (M ! i ! j) (N ! i ! j) then fadd (N ! i ! j) pc else N ! i ! j)"
  using assms same_shape_row[OF assms(1,2)] same_shape_length[OF assms(1)]
    meth_prior_cell[OF assms, of pc] length_meth_prior[OF assms(1), of pc]
    length_meth_prior_row[OF assms(1,2), of pc]
  by (simp_all add: impute_methylated_def impute_depths_def)

lemma imputed_length:
  assumes "same_shape M N"
  shows "length (impute_methylated pc M N (meth_prior pc M N)) = length M"
    and "length (impute_depths pc M N) = length M"
  using assms same_shape_length[OF assms] length_meth_prior[OF assms, of pc]
  by (simp_all add: impute_methylated_def impute_depths_def)

lemma imputed_row_length:
  assumes "same_shape M N" "i < length M"
  shows "length (impute_methylated pc M N (meth_prior pc M N) ! i) = ncols M"
    and "length (impute_depths pc M N ! i) = ncols M"
  using assms same_shape_row[OF assms] same_shape_length[OF assms(1)]
    length_meth_prior[OF assms(1), of pc] length_meth_prior_row[OF assms, of pc]
  by (simp_all add: impute_methylated_def impute_depths_def)

lemma valid_cell_Fin: "valid_cell m d \<longleftrightarrow> (\<exists>a b. m = Fin a \<and> d = Fin b \<and> 0 \<le> a \<and> a \<le> b)"
  by (cases m; cases d) (simp_all add: valid_cell_def)

lemma corrected_cell_Fin: "corrected_cell m d \<longleftrightarrow> (\<exists>a b. m = Fin a \<and> d = Fin b \<and> 0 < a \<and> a < b)"
  by (cases m; cases d) (simp_all add: corrected_cell_def)

lemma fsum_valid: "list_all2 valid_cell ms ds \<Longrightarrow> valid_cell (fsum ms) (fsum ds)"
  by (induction rule: list_all2_induct) (auto simp: valid_cell_Fin)

lemma concat_valid:
  "list_all2 (list_all2 valid_cell) M N \<Longrightarrow> list_all2 valid_cell (concat M) (concat N)"
  by (induction rule: list_all2_induct) (auto intro: list_all2_appendI)

lemma valid_same_shape: "valid_counts M N \<Longrightarrow> same_shape M N"
  by (auto simp: valid_counts_def same_shape_def list_all2_conv_all_nth)

lemma column_valid:
  assumes "valid_counts M N" "j < ncols M"
  shows "list_all2 valid_cell (column j M) (column j N)"
proof -
  have sh: "same_shape M N" using assms(1) by (rule valid_same_shape)
  have "valid_cell (M ! i ! j) (N ! i ! j)" if "i < length M" for i
    using assms that same_shape_row[OF sh that]
    by (auto simp: valid_counts_def list_all2_conv_all_nth)
  then show ?thesis
    using same_shape_length[OF sh] by (simp add: column_def list_all2_conv_all_nth)
qed

lemma marginal_cell_finite:
  assumes "valid_cell m d" "0 < q"
  shows "\<exists>c. (if degenerate m d then fdiv (fadd m (fmul (Fin q) (Fin v))) (fadd d (Fin q))
               else fdiv m d) = Fin c"
proof -
  obtain a b where ab: "m = Fin a" "d = Fin b" "0 \<le> a" "a \<le> b"
    using assms(1) by (auto simp: valid_cell_Fin)
  show ?thesis
  proof (cases "degenerate m d")
    case True
    then show ?thesis using ab assms(2) by simp
  next
    case False
    then have "b \<noteq> 0" using ab by (auto simp: degenerate_def)
    then show ?thesis using ab False by simp
  qed
qed

lemma avg_meth_finite:
  assumes "valid_counts M N" "flt (Fin 0) (msum N)"
  shows "\<exists>v. avg_meth M N = Fin v"
proof -
  have "valid_cell (msum M) (msum N)"
    unfolding msum_def using assms(1) by (intro fsum_valid concat_valid) (simp add: valid_counts_def)
  then obtain a b where "msum M = Fin a" "msum N = Fin b" by (auto simp: valid_cell_Fin)
  then show ?thesis using assms(2) by (simp add: avg_meth_def)
qed

lemma col_meth_finite:
  assumes "valid_counts M N" "flt (Fin 0) (msum N)" "j < ncols M" "0 < q"
  shows "\<exists>c. col_meth (Fin q) M N ! j = Fin c"
proof -
  have sh: "same_shape M N" using assms(1) by (rule valid_same_shape)
  obtain v where v: "avg_meth M N = Fin v" using avg_meth_finite[OF assms(1,2)] by blast
  have "valid_cell (fsum (column j M)) (fsum (column j N))"
    using column_valid[OF assms(1,3)] by (rule fsum_valid)
  from marginal_cell_finite[OF this assms(4), of v] show ?thesis
    using assms(3) same_shape_ncols[OF sh]
    by (simp add: col_meth_def marginal_meth_def sum_axis0_def v)
qed

lemma corrected_cell_imputed:
  assumes "valid_cell m d" "p = Fin c"
  shows "corrected_cell
           (if degenerate m d
            then fadd m (fmul (Fin (8 / 10)) (clip p (Fin (1 / 100)) (Fin (99 / 100)))) else m)
           (if degenerate m d then fadd d (Fin (8 / 10)) else d)"
proof -
  obtain a b where ab: "m = Fin a" "d = Fin b" "0 \<le> a" "a \<le> b"
    using assms(1) by (auto simp: valid_cell_Fin)
  have lo: "1 / 100 \<le> min (max c (1 / 100)) (99 / 100)"
    and hi: "min (max c (1 / 100)) (99 / 100) \<le> 99 / 100" by simp_all
  show ?thesis
  proof (cases "degenerate m d")
    case True
    have "0 < a + 8 / 10 * min (max c (1 / 100)) (99 / 100)"
      using ab(3) lo by (intro add_nonneg_pos mult_pos_pos) simp_all
    moreover have "8 / 10 * min (max c (1 / 100)) (99 / 100) < 8 / 10"
      using hi by simp
    ultimately show ?thesis
      using True ab assms(2) by (simp add: corrected_cell_Fin clip_real)
  next
    case False
    then show ?thesis using ab by (auto simp: degenerate_def corrected_cell_Fin)
  qed
qed

lemma list_all2_left: "list_all2 Q xs ys \<Longrightarrow> (\<And>x y. Q x y \<Longrightarrow> P x) \<Longrightarrow> list_all P xs"
  by (induction rule: list_all2_induct) auto

lemma list_all2_right: "list_all2 Q xs ys \<Longrightarrow> (\<And>x y. Q x y \<Longrightarrow> P y) \<Longrightarrow> list_all P ys"
  by (induction rule: list_all2_induct) auto

lemma list_all2_zip:
  "list_all2 Q xs ys \<Longrightarrow> (\<And>x y. Q x y \<Longrightarrow> R x y) \<Longrightarrow> list_all (\<lambda>(x, y). R x y) (zip xs ys)"
  by (induction rule: list_all2_induct) auto

lemma any_cell_iff: "any_cell P M \<longleftrightarrow> \<not> all_cells (\<lambda>x. \<not> P x) M"
  by (auto simp: any_cell_def all_cells_def list_ex_iff list_all_iff)

lemma corrected_assertions:
  assumes "list_all2 (list_all2 corrected_cell) M N"
  shows "all_cells (\<lambda>m. fgt m (Fin 0)) M"
    and "\<not> any_cell isnan M" and "\<not> any_cell isnan N"
    and "\<not> any_cell isinf M" and "\<not> any_cell isinf N"
    and "all_cells2 flt M N"
proof -
  show "all_cells (\<lambda>m. fgt m (Fin 0)) M"
    unfolding all_cells_def using assms
    by (rule list_all2_left) (erule list_all2_left, auto simp: corrected_cell_Fin fgt_def)
  show "\<not> any_cell isnan M"
    unfolding any_cell_iff all_cells_def using assms
    by simp (rule list_all2_left, assumption, erule list_all2_left, auto simp: corrected_cell_Fin isnan_def)
  show "\<not> any_cell isinf M"
    unfolding any_cell_iff all_cells_def using assms
    by simp (rule list_all2_left, assumption, erule list_all2_left, auto simp: corrected_cell_Fin isinf_def)
  show "\<not> any_cell isnan N"
    unfolding any_cell_iff all_cells_def using assms
    by simp (rule list_all2_right, assumption, erule list_all2_right, auto simp: corrected_cell_Fin isnan_def)
  show "\<not> any_cell isinf N"
    unfolding any_cell_iff all_cells_def using assms
    by simp (rule list_all2_right, assumption, erule list_all2_right, auto simp: corrected_cell_Fin isinf_def)
  show "all_cells2 flt M N"
    unfolding all_cells2_def using assms
    by (rule list_all2_zip) (erule list_all2_zip, auto simp: corrected_cell_Fin)
qed

lemma cell_not_empty: "i < length M \<Longrightarrow> j < length (M ! i) \<Longrightarrow> concat M \<noteq> []"
  by (induction M arbitrary: i) (auto simp: nth_Cons split: nat.splits)

lemma imputed_corrected:
  assumes "valid_counts M N" "flt (Fin 0) (msum N) \<or> concat M = []"
  shows "list_all2 (list_all2 corrected_cell)
           (impute_methylated pc_default M N (meth_prior pc_default M N))
           (impute_depths pc_default M N)"
proof -
  have sh: "same_shape M N" using assms(1) by (rule valid_same_shape)
  have cell: "corrected_cell
       (impute_methylated pc_default M N (meth_prior pc_default M N) ! i ! j)
       (impute_depths pc_default M N ! i ! j)"
    if ij: "i < length M" "j < ncols M" for i j
  proof -
    have "concat M \<noteq> []"
      using ij same_shape_row[OF sh ij(1)] by (intro cell_not_empty[of i M j]) simp_all
    then have pos: "flt (Fin 0) (msum N)" using assms(2) by blast
    have v: "valid_cell (M ! i ! j) (N ! i ! j)"
      using assms(1) ij same_shape_row[OF sh ij(1)]
      by (auto simp: valid_counts_def list_all2_conv_all_nth)
    obtain c where c: "col_meth (Fin (8 / 10)) M N ! j = Fin c"
      using col_meth_finite[OF assms(1) pos ij(2), of "8 / 10"] by auto
    show ?thesis
      unfolding pc_default_def imputed_cell[OF sh ij]
      by (rule corrected_cell_imputed[OF v c])
  qed
  show ?thesis
    using cell by (simp add: list_all2_conv_all_nth imputed_length[OF sh] imputed_row_length[OF sh])
qed

text \<open>
  The two sums of a degenerate cell with the rounding of floats. At a cell with
  \<open>methylated = depth\<close> the sums \<open>depth + pc * prior\<close> and \<open>depth + pc\<close> differ by
  \<open>0.8 * (1 - prior)\<close>, which is at least 0.008, and a float keeps them apart only while
  the distance of two neighbouring floats near \<open>depth\<close> is smaller: up to the depth
  \<open>2^40\<close> the rounded sums are in the order of the exact ones. From about \<open>2^46\<close> on
  both round to one float.
\<close>

lemma rounded_imputation_order:
  assumes "0 \<le> m" "m \<le> d" "d \<le> 2 ^ 40" "1 / 100 \<le> p" "p \<le> 99 / 100"
  shows "0 < round64 (m + round64 (8 / 10 * p))"
    and "round64 (m + round64 (8 / 10 * p)) < round64 (d + 8 / 10)"
proof -
  define c where "c = round64 (8 / 10 * p)"
  have cp: "0 < c" unfolding c_def using assms(4) by (intro round64_pos) simp
  show "0 < round64 (m + round64 (8 / 10 * p))"
    using cp assms(1) unfolding c_def[symmetric] by (intro round64_pos) simp
  have "c \<le> 8 / 10 * p + 8 / 10 * p / 2 ^ 53"
    unfolding c_def using assms(4) by (intro round64_bounds) simp
  moreover have "8 / 10 * p + 8 / 10 * p / 2 ^ 53
                   \<le> 8 / 10 * (99 / 100) + 8 / 10 * (99 / 100) / 2 ^ 53"
    using assms(5) by simp
  ultimately have c2: "c \<le> 8 / 10 * (99 / 100) + 8 / 10 * (99 / 100) / 2 ^ 53" by linarith
  have lo: "round64 (m + c) \<le> (m + c) + (m + c) / 2 ^ 53"
    using cp assms(1) by (intro round64_bounds) simp
  have hi: "(d + 8 / 10) - (d + 8 / 10) / 2 ^ 53 \<le> round64 (d + 8 / 10)"
    using assms(1,2) by (intro round64_bounds) simp
  have "(m + c) + (m + c) / 2 ^ 53 < (d + 8 / 10) - (d + 8 / 10) / 2 ^ 53"
    using assms(1,2,3) c2 cp by (simp add: field_simps)
  then show "round64 (m + round64 (8 / 10 * p)) < round64 (d + 8 / 10)"
    using lo hi unfolding c_def[symmetric] by linarith
qed

text \<open>
  Claim C1, as the code has it. For every valid pair of count matrices (same shape,
  finite cells, \<open>0 \<le> methylated \<le> depth\<close> in every cell) whose total depth is
  positive, or which have no cell at all, and whose depths are at most \<open>2^40\<close>,
  \<open>add_pseudo_counts\<close> with the default pseudo-count passes its six assertions and
  returns matrices of the shape of its arguments in which every cell is finite with
  \<open>0 < methylated < depth\<close>. The bound on the depths is there for the floats of the
  program, where the last assertion fails at a large depth (see above); the embedding
  of \<open>add_pseudo_counts\<close> computes in exact arithmetic, and the proof does not need the
  bound.
\<close>

theorem add_pseudo_counts_postconditions:
  assumes "valid_counts M N" "flt (Fin 0) (msum N) \<or> concat M = []"
    and "all_cells (\<lambda>d. fle d (Fin (2 ^ 40))) N"
  shows "\<exists>M' N'. add_pseudo_counts M N pc_default = Inr (M', N')
           \<and> list_all2 (list_all2 corrected_cell) M' N'
           \<and> list_all2 (\<lambda>r r'. length r' = length r) M M'"
proof -
  let ?M' = "impute_methylated pc_default M N (meth_prior pc_default M N)"
  let ?N' = "impute_depths pc_default M N"
  have sh: "same_shape M N" using assms(1) by (rule valid_same_shape)
  have c: "list_all2 (list_all2 corrected_cell) ?M' ?N'"
    using imputed_corrected[OF assms(1,2)] .
  have r: "add_pseudo_counts M N pc_default = Inr (?M', ?N')"
    using corrected_assertions[OF c] by (simp add: add_pseudo_counts_def Let_def)
  have s: "list_all2 (\<lambda>r r'. length r' = length r) M ?M'"
    using imputed_length(1)[OF sh, of pc_default] imputed_row_length(1)[OF sh, of _ pc_default]
      same_shape_row[OF sh]
    by (simp add: list_all2_conv_all_nth)
  show ?thesis using r c s by blast
qed

lemmas pseudo_count_defs =
  valid_counts_def rectangular_def ncols_def valid_cell_def add_pseudo_counts_def Let_def
  meth_prior_def row_meth_def col_meth_def avg_meth_def msum_def sum_axis0_def sum_axis1_def
  column_def marginal_meth_def degenerate_def outer_def clip_matrix_def clip_def fmaximum_def
  fminimum_def isnan_def impute_methylated_def impute_depths_def all_cells_def any_cell_def
  all_cells2_def fgt_def isinf_def pc_default_def

theorem add_pseudo_counts_postconditions_witness:
  "valid_counts [[Fin 0, Fin 5, Fin 10, Fin 3, Fin 7], [Fin 5, Fin 0, Fin 2, Fin 10, Fin 1]]
     [[Fin 10, Fin 10, Fin 10, Fin 10, Fin 10], [Fin 10, Fin 10, Fin 10, Fin 10, Fin 10]] \<and>
   flt (Fin 0)
     (msum [[Fin 10, Fin 10, Fin 10, Fin 10, Fin 10], [Fin 10, Fin 10, Fin 10, Fin 10, Fin 10]]) \<and>
   all_cells (\<lambda>d. fle d (Fin (2 ^ 40)))
     [[Fin 10, Fin 10, Fin 10, Fin 10, Fin 10], [Fin 10, Fin 10, Fin 10, Fin 10, Fin 10]] \<and>
   (\<exists>M' N'.
      add_pseudo_counts
        [[Fin 0, Fin 5, Fin 10, Fin 3, Fin 7], [Fin 5, Fin 0, Fin 2, Fin 10, Fin 1]]
        [[Fin 10, Fin 10, Fin 10, Fin 10, Fin 10], [Fin 10, Fin 10, Fin 10, Fin 10, Fin 10]]
        pc_default = Inr (M', N')
      \<and> list_all2 (list_all2 corrected_cell) M' N'
      \<and> list_all2 (\<lambda>r r'. length r' = length r)
           [[Fin 0, Fin 5, Fin 10, Fin 3, Fin 7], [Fin 5, Fin 0, Fin 2, Fin 10, Fin 1]] M')"
proof -
  let ?M = "[[Fin 0, Fin 5, Fin 10, Fin 3, Fin 7], [Fin 5, Fin 0, Fin 2, Fin 10, Fin 1]]"
  let ?N = "[[Fin 10, Fin 10, Fin 10, Fin 10, Fin 10], [Fin 10, Fin 10, Fin 10, Fin 10, Fin 10]]"
  have v: "valid_counts ?M ?N"
    by (simp add: valid_counts_def rectangular_def ncols_def valid_cell_def)
  have p: "flt (Fin 0) (msum ?N)" by (simp add: msum_def)
  have b: "all_cells (\<lambda>d. fle d (Fin (2 ^ 40))) ?N" by (simp add: all_cells_def fle_def)
  from add_pseudo_counts_postconditions[OF v disjI1[OF p] b] v p b show ?thesis
    by blast
qed

text \<open>
  The claim fails as it is stated: a matrix of zero depth is valid, its average rate is
  \<open>0 / 0\<close>, every prior is NaN and the first assertion fails.
\<close>

theorem zero_depth_assertion_counterexample:
  "valid_counts [[Fin 0]] [[Fin 0]] \<and>
   add_pseudo_counts [[Fin 0]] [[Fin 0]] pc_default = Inl AssertionError"
  by (simp add: pseudo_count_defs)

text \<open>
  Claim C2, as the code has it. The prior of cell \<open>(i, j)\<close> is the marginal rate of
  column \<open>j\<close> alone, clipped to \<open>[0.01, 0.99]\<close>: the outer product is taken with a
  vector of ones, and of the row rates only their number is used. Every cell whose
  methylated value is 0 or equals its depth gets \<open>pc\<close> times this prior added to
  methylated and \<open>pc\<close> added to depth; the other cells are unchanged.
\<close>

theorem prior_is_clipped_column_rate:
  assumes "same_shape M N" "i < length M" "j < ncols M"
    and "add_pseudo_counts M N pc = Inr (M', N')"
  shows "meth_prior pc M N ! i ! j
           = clip (col_meth pc M N ! j) (Fin (1 / 100)) (Fin (99 / 100))
       \<and> M' ! i ! j = (if degenerate (M ! i ! j) (N ! i ! j)
                        then fadd (M ! i ! j) (fmul pc (meth_prior pc M N ! i ! j))
                        else M ! i ! j)
       \<and> N' ! i ! j = (if degenerate (M ! i ! j) (N ! i ! j)
                        then fadd (N ! i ! j) pc else N ! i ! j)"
proof -
  have "M' = impute_methylated pc M N (meth_prior pc M N)" and "N' = impute_depths pc M N"
    using assms(4) by (auto simp: add_pseudo_counts_def Let_def split: if_splits)
  then show ?thesis
    using imputed_cell[OF assms(1-3), of pc] meth_prior_cell[OF assms(1-3), of pc] by simp
qed

theorem prior_is_clipped_column_rate_witness:
  "same_shape [[Fin 0, Fin 4], [Fin 4, Fin 0]] [[Fin 8, Fin 8], [Fin 8, Fin 8]] \<and>
   (0::nat) < length [[Fin 0, Fin 4], [Fin 4, Fin 0]] \<and>
   (0::nat) < ncols [[Fin 0, Fin 4], [Fin 4, Fin 0]] \<and>
   add_pseudo_counts [[Fin 0, Fin 4], [Fin 4, Fin 0]] [[Fin 8, Fin 8], [Fin 8, Fin 8]]
       pc_default
     = Inr ([[Fin (1 / 5), Fin 4], [Fin 4, Fin (1 / 5)]],
            [[Fin (44 / 5), Fin 8], [Fin 8, Fin (44 / 5)]]) \<and>
   col_meth pc_default [[Fin 0, Fin 4], [Fin 4, Fin 0]] [[Fin 8, Fin 8], [Fin 8, Fin 8]] ! 0
     = Fin (1 / 4) \<and>
   meth_prior pc_default [[Fin 0, Fin 4], [Fin 4, Fin 0]] [[Fin 8, Fin 8], [Fin 8, Fin 8]]
       ! 0 ! 0 = Fin (1 / 4)"
proof -
  let ?M = "[[Fin 0, Fin 4], [Fin 4, Fin 0]]"
  let ?N = "[[Fin 8, Fin 8], [Fin 8, Fin 8]]"
  have s: "same_shape ?M ?N" by (simp add: same_shape_def rectangular_def ncols_def)
  have i: "(0::nat) < length ?M" and j: "(0::nat) < ncols ?M" by (simp_all add: ncols_def)
  have r: "add_pseudo_counts ?M ?N pc_default
     = Inr ([[Fin (1 / 5), Fin 4], [Fin 4, Fin (1 / 5)]],
            [[Fin (44 / 5), Fin 8], [Fin 8, Fin (44 / 5)]])"
    by (simp add: pseudo_count_defs)
  have c: "col_meth pc_default ?M ?N ! 0 = Fin (1 / 4)"
    by (simp add: pseudo_count_defs)
  from prior_is_clipped_column_rate[OF s i j r] s i j r c show ?thesis
    by (simp add: clip_real)
qed

text \<open>
  The claim fails as it is stated: here every row rate and every column rate is 1/4, the
  product of the two is 1/16, and the degenerate cell \<open>(0, 0)\<close> gets 0.8 * 1/4 = 1/5 and
  not 0.8 * 1/16 = 1/20.
\<close>

theorem prior_rows_by_columns_counterexample:
  "row_meth pc_default [[Fin 0, Fin 4], [Fin 4, Fin 0]] [[Fin 8, Fin 8], [Fin 8, Fin 8]] ! 0
     = Fin (1 / 4) \<and>
   meth_prior_rows_by_columns pc_default [[Fin 0, Fin 4], [Fin 4, Fin 0]]
       [[Fin 8, Fin 8], [Fin 8, Fin 8]] ! 0 ! 0 = Fin (1 / 16) \<and>
   meth_prior pc_default [[Fin 0, Fin 4], [Fin 4, Fin 0]] [[Fin 8, Fin 8], [Fin 8, Fin 8]]
       ! 0 ! 0 = Fin (1 / 4) \<and>
   add_pseudo_counts [[Fin 0, Fin 4], [Fin 4, Fin 0]] [[Fin 8, Fin 8], [Fin 8, Fin 8]]
       pc_default
     = Inr ([[Fin (1 / 5), Fin 4], [Fin 4, Fin (1 / 5)]],
            [[Fin (44 / 5), Fin 8], [Fin 8, Fin (44 / 5)]])"
  by (simp add: pseudo_count_defs meth_prior_rows_by_columns_def)

section \<open>The initializer\<close>

lemma nonneg_cells_Fin:
  "list_all nonneg_cell x \<Longrightarrow> \<exists>cs. x = map Fin cs \<and> (\<forall>c \<in> set cs. 0 \<le> c)"
proof (induction x)
  case Nil
  then show ?case by simp
next
  case (Cons v x)
  then obtain cs where cs: "x = map Fin cs" "\<forall>c \<in> set cs. 0 \<le> c" by auto
  from Cons.prems obtain a where "v = Fin a" "0 \<le> a"
    by (cases v) (auto simp: nonneg_cell_def)
  then have "v # x = map Fin (a # cs) \<and> (\<forall>c \<in> set (a # cs). 0 \<le> c)" using cs by simp
  then show ?case by (intro exI[of _ "a # cs"])
qed

lemma fsum_Fin: "fsum (map Fin cs) = Fin (sum_list cs)"
  by (induction cs) simp_all

lemma nonneg_cells_map_Fin: "list_all nonneg_cell (map Fin cs) \<longleftrightarrow> (\<forall>c \<in> set cs. 0 \<le> c)"
  by (simp add: list_all_iff nonneg_cell_def)

lemma sum_list_divide: "sum_list (map (\<lambda>c. c / t) cs) = sum_list cs / (t::real)"
  by (induction cs) (simp_all add: add_divide_distrib)

lemma sum_list_add_const:
  "sum_list (map (\<lambda>c. c + e) cs) = sum_list cs + real (length cs) * (e::real)"
  by (induction cs) (simp_all add: algebra_simps)

lemma map_fdiv_Fin:
  "t \<noteq> 0 \<Longrightarrow> map (\<lambda>v. fdiv v (Fin t)) (map Fin cs) = map Fin (map (\<lambda>c. c / t) cs)"
  by (induction cs) simp_all

lemma map_fadd_Fin:
  "map (\<lambda>v. fadd v (Fin e)) (map Fin cs) = map Fin (map (\<lambda>c. c + e) cs)"
  by (induction cs) simp_all

text \<open>In exact arithmetic a row divided by its sum has the sum 1, which is within the tolerance.\<close>

lemma unit_sum_simplex: "unit_sum_row x \<Longrightarrow> simplex_row x"
  by (simp add: unit_sum_row_def simplex_row_def)

lemma normalize_row_simplex:
  assumes "nonneg_solution x"
  shows "unit_sum_row (map (\<lambda>v. fdiv v (fsum x)) x)"
proof -
  obtain cs where cs: "x = map Fin cs" "\<forall>c \<in> set cs. 0 \<le> c"
    using assms nonneg_cells_Fin by (auto simp: nonneg_solution_def)
  have t: "0 < sum_list cs" using assms by (simp add: nonneg_solution_def cs(1) fsum_Fin)
  define ds where "ds = map (\<lambda>c. c / sum_list cs) cs"
  have eq: "map (\<lambda>v. fdiv v (fsum x)) x = map Fin ds"
    unfolding cs(1) fsum_Fin ds_def using t by (intro map_fdiv_Fin) simp
  have "sum_list ds = 1" unfolding ds_def sum_list_divide using t by simp
  moreover have "\<forall>c \<in> set ds. 0 \<le> c" unfolding ds_def using cs(2) t by simp
  ultimately show ?thesis
    unfolding eq unit_sum_row_def fsum_Fin nonneg_cells_map_Fin by simp
qed

lemma add_epsilon_row_nonneg:
  assumes "unit_sum_row x"
  shows "nonneg_solution (map (\<lambda>v. fadd v (Fin (1 / 1000000))) x)"
proof -
  obtain cs where cs: "x = map Fin cs" "\<forall>c \<in> set cs. 0 \<le> c"
    using assms nonneg_cells_Fin by (auto simp: unit_sum_row_def)
  have t: "sum_list cs = 1" using assms by (simp add: unit_sum_row_def cs(1) fsum_Fin)
  define ds where "ds = map (\<lambda>c. c + 1 / 1000000) cs"
  have eq: "map (\<lambda>v. fadd v (Fin (1 / 1000000))) x = map Fin ds"
    unfolding cs(1) ds_def by (rule map_fadd_Fin)
  have "0 < sum_list ds"
    unfolding ds_def sum_list_add_const t by (simp add: add_pos_nonneg)
  moreover have "\<forall>c \<in> set ds. 0 \<le> c" unfolding ds_def using cs(2) by auto
  ultimately show ?thesis
    unfolding eq nonneg_solution_def fsum_Fin nonneg_cells_map_Fin by simp
qed

lemma simplex_after_epsilon:
  assumes "unit_sum_row x"
  shows "unit_sum_row (map (\<lambda>v. fdiv v (fsum (map (\<lambda>v. fadd v (Fin (1 / 1000000))) x)))
                        (map (\<lambda>v. fadd v (Fin (1 / 1000000))) x))"
  by (rule normalize_row_simplex[OF add_epsilon_row_nonneg[OF assms]])

lemma proportions_rows_simplex:
  assumes "list_all unit_sum_row a"
  shows "list_all unit_sum_row (normalize_rows (add_epsilon a))"
  using assms simplex_after_epsilon
  by (simp add: normalize_rows_def add_epsilon_def list_all_iff)

lemma ncols_transpose:
  "M \<noteq> [] \<Longrightarrow> 0 < length (hd M) \<Longrightarrow> ncols (transpose_matrix M) = length M"
  by (cases M) (simp_all add: transpose_matrix_def ncols_def column_def upt_conv_Cons)

lemma ncols_rows: "M \<noteq> [] \<Longrightarrow> list_all (\<lambda>r. length r = m) M \<Longrightarrow> ncols M = m"
  by (cases M) (simp_all add: ncols_def)

subsection \<open>The systems given to the solver\<close>

lemma positive_cell_Fin: "positive_cell v \<longleftrightarrow> (\<exists>a. v = Fin a \<and> 0 < a)"
  by (cases v) (simp_all add: positive_cell_def)

lemma positive_matrix_nth:
  "positive_matrix m A \<Longrightarrow> i < length A \<Longrightarrow>
   length (A ! i) = m \<and> list_all positive_cell (A ! i)"
  by (simp add: positive_matrix_def list_all_length)

lemma positive_matrix_rows: "positive_matrix m A \<Longrightarrow> list_all (\<lambda>r. length r = m) A"
  by (simp add: positive_matrix_def list_all_iff)

lemma scaled_cell_positive:
  "positive_cell w \<Longrightarrow> positive_cell r \<Longrightarrow> positive_cell (fmul (fsqrt w) r)"
  by (auto simp: positive_cell_Fin)

lemma fsum_positive:
  "list_all positive_cell xs \<Longrightarrow> xs \<noteq> [] \<Longrightarrow> positive_cell (fsum xs)"
proof (induction xs)
  case Nil
  then show ?case by simp
next
  case (Cons x xs)
  obtain a where a: "x = Fin a" "0 < a" using Cons.prems(1) by (auto simp: positive_cell_Fin)
  show ?case
  proof (cases "xs = []")
    case True
    then show ?thesis using a by (simp add: positive_cell_def)
  next
    case False
    then obtain t where "fsum xs = Fin t" "0 < t"
      using Cons by (auto simp: positive_cell_Fin)
    then show ?thesis using a by (simp add: positive_cell_def)
  qed
qed

lemma nnls_system_positive:
  assumes R: "R_atlas \<noteq> []" "positive_matrix m R_atlas" and m: "0 < m"
    and w: "length w = m" "list_all positive_cell w"
    and x: "length x = m" "list_all positive_cell x"
  shows "positive_system
           (transpose_matrix (map (\<lambda>row. map2 (\<lambda>w r. fmul (fsqrt w) r) w row) R_atlas))
           (map2 (\<lambda>w x. fmul (fsqrt w) x) w x)"
    and "ncols (transpose_matrix (map (\<lambda>row. map2 (\<lambda>w r. fmul (fsqrt w) r) w row) R_atlas))
           = length R_atlas"
proof -
  define B where "B = map (\<lambda>row. map2 (\<lambda>w r. fmul (fsqrt w) r) w row) R_atlas"
  have lB: "length B = length R_atlas" by (simp add: B_def)
  have rows: "length (R_atlas ! k) = m \<and> list_all positive_cell (R_atlas ! k)"
    if "k < length R_atlas" for k
    using positive_matrix_nth[OF R(2) that] .
  have Bk: "length (B ! k) = m" if "k < length R_atlas" for k
    using rows[OF that] w(1) that by (simp add: B_def)
  have cell: "positive_cell (B ! k ! j)" if "k < length R_atlas" "j < m" for k j
    using rows[OF that(1)] w that by (simp add: B_def list_all_length scaled_cell_positive)
  have "list_all (\<lambda>r. length r = m) B" using Bk lB by (simp add: list_all_length)
  moreover have Bne: "B \<noteq> []" using R(1) by (simp add: B_def)
  ultimately have nB: "ncols B = m" by (intro ncols_rows)
  have T: "transpose_matrix B = map (\<lambda>j. map (\<lambda>r. r ! j) B) [0..<m]"
    by (simp add: transpose_matrix_def nB column_def)
  have nc: "ncols (transpose_matrix B) = length R_atlas"
    unfolding T using m lB by (simp add: ncols_def upt_conv_Cons)
  have "rectangular (transpose_matrix B)"
    unfolding rectangular_def nc unfolding T using lB by (simp add: list_all_iff)
  moreover have "all_cells positive_cell (transpose_matrix B)"
    unfolding T all_cells_def using cell lB by (simp add: list_all_length)
  moreover have "transpose_matrix B \<noteq> []" unfolding T using m by simp
  moreover have "length (map2 (\<lambda>w x. fmul (fsqrt w) x) w x) = length (transpose_matrix B)"
    unfolding T using w x by simp
  moreover have "list_all positive_cell (map2 (\<lambda>w x. fmul (fsqrt w) x) w x)"
    using w x by (simp add: list_all_length scaled_cell_positive)
  ultimately show "positive_system (transpose_matrix B) (map2 (\<lambda>w x. fmul (fsqrt w) x) w x)"
    using nc R(1) by (simp add: positive_system_def)
  show "ncols (transpose_matrix B) = length R_atlas" by (rule nc)
qed

lemma nnls_ok:
  assumes "solver_ok solve" "Rc \<noteq> []" "R_atlas \<noteq> []" "0 < m"
    and "positive_matrix m R_atlas" "positive_matrix m Rc" "positive_matrix m W"
    and "length W = length Rc"
  shows "\<exists>a. nnls solve R_atlas Rc W = Inr a \<and> length a = length Rc
           \<and> list_all unit_sum_row a \<and> list_all (\<lambda>x. length x = length R_atlas) a"
proof -
  define A where "A i = transpose_matrix
      (map (\<lambda>row. map2 (\<lambda>w r. fmul (fsqrt w) r) (W ! i) row) R_atlas)" for i
  define b where "b i = map2 (\<lambda>w x. fmul (fsqrt w) x) (W ! i) (Rc ! i)" for i
  define xs where "xs = map (\<lambda>i. solve (A i) (b i) 3000) [0..<length Rc]"
  have sys: "positive_system (A i) (b i) \<and> ncols (A i) = length R_atlas"
    if "i < length Rc" for i
  proof -
    have w: "length (W ! i) = m \<and> list_all positive_cell (W ! i)"
      using positive_matrix_nth[OF assms(7)] that assms(8) by simp
    have x: "length (Rc ! i) = m \<and> list_all positive_cell (Rc ! i)"
      using positive_matrix_nth[OF assms(6) that] .
    show ?thesis
      unfolding A_def b_def
      using nnls_system_positive[OF assms(3,5,4), of "W ! i" "Rc ! i"] w x by simp
  qed
  have sol: "length (solve (A i) (b i) 3000) = length R_atlas
           \<and> nonneg_solution (solve (A i) (b i) 3000)" if "i < length Rc" for i
    using assms(1) sys[OF that] by (simp add: solver_ok_def)
  have len: "list_all (\<lambda>x. length x = length R_atlas) xs"
    using sol by (simp add: xs_def list_all_iff)
  have hd_len: "length (hd xs) = length R_atlas"
    using assms(2) sol[of 0] by (simp add: xs_def hd_map upt_conv_Cons)
  have same: "list_all (\<lambda>x. length x = length (hd xs)) xs"
    using len hd_len by simp
  have res: "nnls solve R_atlas Rc W = Inr (map (\<lambda>x. map (\<lambda>v. fdiv v (fsum x)) x) xs)"
    using assms(2) same by (simp add: nnls_def Let_def xs_def A_def b_def)
  have "list_all unit_sum_row (map (\<lambda>x. map (\<lambda>v. fdiv v (fsum x)) x) xs)"
    using sol normalize_row_simplex by (simp add: xs_def list_all_iff)
  moreover have "list_all (\<lambda>x. length x = length R_atlas)
      (map (\<lambda>x. map (\<lambda>v. fdiv v (fsum x)) x) xs)"
    using len by (simp add: list_all_iff)
  ultimately show ?thesis using res by (simp add: xs_def)
qed

lemma proportions_ok:
  assumes "solver_ok solve" "Rc \<noteq> []" "R_atlas \<noteq> []" "0 < m"
    and "positive_matrix m R_atlas" "positive_matrix m Rc" "positive_matrix m W"
    and "length W = length Rc"
  shows "\<exists>a. proportions solve R_atlas Rc W = Inr a \<and> length a = length Rc
           \<and> list_all unit_sum_row a \<and> list_all (\<lambda>x. length x = length R_atlas) a"
proof -
  obtain a where a: "nnls solve R_atlas Rc W = Inr a" "length a = length Rc"
    "list_all unit_sum_row a" "list_all (\<lambda>x. length x = length R_atlas) a"
    using nnls_ok[OF assms] by blast
  have "list_all (\<lambda>x. length x = length R_atlas) (normalize_rows (add_epsilon a))"
    using a(4) by (simp add: normalize_rows_def add_epsilon_def list_all_iff)
  then show ?thesis
    using a proportions_rows_simplex[OF a(3)]
    by (simp add: proportions_def normalize_rows_def add_epsilon_def)
qed

subsection \<open>The row of an unknown tissue\<close>

lemma unknown_profile_nth:
  assumes "j < length lb" "length ub = length lb" "length med = length lb"
    and "lb ! j = Fin l" "ub ! j = Fin u"
  shows "unknown_profile lb ub med ! j =
           (if fle (med ! j) (Fin 0) then Fin (round64 (l + round64 (round64 (u - l))))
            else Fin (round64 l))"
  using assms by (simp add: unknown_profile_def Let_def fsub_def)

lemma length_unknown_profile:
  "length ub = length lb \<Longrightarrow> length med = length lb \<Longrightarrow>
   length (unknown_profile lb ub med) = length lb"
  by (simp add: unknown_profile_def Let_def)

lemma unknown_profile_positive:
  assumes "length lb = m" "length ub = m" "length med = m"
    and "\<forall>j < m. \<exists>l u. lb ! j = Fin l \<and> ub ! j = Fin u \<and> 0 < l \<and> l \<le> u"
  shows "length (unknown_profile lb ub med) = m"
    and "list_all positive_cell (unknown_profile lb ub med)"
proof -
  show len: "length (unknown_profile lb ub med) = m"
    using assms(1,2,3) by (simp add: length_unknown_profile)
  have "positive_cell (unknown_profile lb ub med ! j)" if jm: "j < m" for j
  proof -
    obtain l u where lu: "lb ! j = Fin l" "ub ! j = Fin u" "0 < l" "l \<le> u"
      using assms(4) jm by blast
    have "0 \<le> round64 (round64 (u - l))" using lu(4) by (simp add: round64_nonneg)
    then have "0 < round64 (l + round64 (round64 (u - l)))"
      using lu(3) by (intro round64_pos) simp
    moreover have "0 < round64 l" using lu(3) by (rule round64_pos)
    ultimately show ?thesis
      using unknown_profile_nth[of j lb ub med l u] jm assms(1,2,3) lu(1,2)
      by (simp add: positive_cell_def)
  qed
  then show "list_all positive_cell (unknown_profile lb ub med)"
    using len by (simp add: list_all_length)
qed

text \<open>
  When \<open>lb\<close> and \<open>ub\<close> are floats, as the rates are: where the median is positive or
  NaN the entry of the row is that of \<open>lb\<close> itself, and elsewhere it is the rounded
  sum of \<open>lb\<close> and the rounded difference \<open>ub - lb\<close>.
\<close>

lemma unknown_profile_floats:
  assumes "j < length lb" "length ub = length lb" "length med = length lb"
    and "lb ! j = Fin (round64 a)" "ub ! j = Fin (round64 b)"
  shows "unknown_profile lb ub med ! j =
           (if fle (med ! j) (Fin 0)
            then fround (fadd (lb ! j) (fround (fsub (ub ! j) (lb ! j))))
            else lb ! j)"
  using unknown_profile_nth[OF assms(1,2,3,4,5)]
  by (simp add: assms(4,5) round64_idem fsub_def)

text \<open>
  The comparison is \<open>residuals <= 0\<close>: a median 0 or \<open>-inf\<close> gives the entry of \<open>ub\<close>,
  a positive median or NaN that of \<open>lb\<close>.
\<close>

lemma unknown_profile_examples:
  "unknown_profile [Fin (1 / 4)] [Fin (1 / 2)] [Fin 0] = [Fin (1 / 2)]"
  "unknown_profile [Fin (1 / 4)] [Fin (1 / 2)] [NInf] = [Fin (1 / 2)]"
  "unknown_profile [Fin (1 / 4)] [Fin (1 / 2)] [Fin (1 / 8)] = [Fin (1 / 4)]"
  "unknown_profile [Fin (1 / 4)] [Fin (1 / 2)] [NaN] = [Fin (1 / 4)]"
  by (simp_all add: unknown_profile_def fle_def fsub_def round64_quarter round64_half)

lemma ncols_sub_matrix:
  "M \<noteq> [] \<Longrightarrow> N \<noteq> [] \<Longrightarrow> ncols (sub_matrix M N) = min (length (hd M)) (length (hd N))"
  by (cases M; cases N) (simp_all add: sub_matrix_def ncols_def)

lemma unknown_iteration_ok:
  assumes "solver_ok solve" "Rc \<noteq> []" "R_atlas \<noteq> []" "0 < m"
    and "positive_matrix m R_atlas" "positive_matrix m Rc" "positive_matrix m W"
    and "length W = length Rc"
    and a: "list_all (\<lambda>x. length x = length R_atlas) a" "length a = length Rc"
    and b: "length lb = m" "length ub = m"
      "\<forall>j < m. \<exists>l u. lb ! j = Fin l \<and> ub ! j = Fin u \<and> 0 < l \<and> l \<le> u"
  shows "\<exists>recon a'. dot a R_atlas = Inr recon
           \<and> unknown_iteration solve lb ub Rc W (R_atlas, a)
               = Inr (R_atlas @ [unknown_profile lb ub (median_axis0 (sub_matrix recon Rc))], a')
           \<and> positive_matrix m
               (R_atlas @ [unknown_profile lb ub (median_axis0 (sub_matrix recon Rc))])
           \<and> proportions solve
               (R_atlas @ [unknown_profile lb ub (median_axis0 (sub_matrix recon Rc))]) Rc W
               = Inr a'
           \<and> length a' = length Rc \<and> list_all unit_sum_row a'
           \<and> list_all (\<lambda>x. length x = Suc (length R_atlas)) a'"
proof -
  define recon where
    "recon = map (\<lambda>row. map (\<lambda>j. fsum (map2 fmul row (column j R_atlas))) [0..<ncols R_atlas]) a"
  have d: "dot a R_atlas = Inr recon"
    using a(1) by (simp add: dot_def list_ex_iff list_all_iff recon_def)
  have nc: "ncols R_atlas = m"
    using assms(3) positive_matrix_rows[OF assms(5)] by (rule ncols_rows)
  have ane: "a \<noteq> []" using a(2) assms(2) by auto
  have hr: "recon \<noteq> []" "length (hd recon) = m"
    using ane nc by (simp_all add: recon_def hd_map)
  have hc: "length (hd Rc) = m"
    using assms(2) positive_matrix_nth[OF assms(6), of 0] by (simp add: hd_conv_nth)
  define med where "med = median_axis0 (sub_matrix recon Rc)"
  have lm: "length med = m"
    using hr hc assms(2) by (simp add: med_def median_axis0_def ncols_sub_matrix)
  define r where "r = unknown_profile lb ub med"
  note p = unknown_profile_positive[OF b(1,2) lm b(3)]
  have pm: "positive_matrix m (R_atlas @ [r])"
    using assms(5) p by (simp add: positive_matrix_def r_def)
  have ne: "R_atlas @ [r] \<noteq> []" by simp
  obtain a' where a': "proportions solve (R_atlas @ [r]) Rc W = Inr a'" "length a' = length Rc"
    "list_all unit_sum_row a'" "list_all (\<lambda>x. length x = length (R_atlas @ [r])) a'"
    using proportions_ok[OF assms(1,2) ne assms(4) pm assms(6,7,8)] by blast
  have "unknown_iteration solve lb ub Rc W (R_atlas, a) = Inr (R_atlas @ [r], a')"
    using d a'(1) by (simp add: unknown_iteration_def Let_def r_def med_def)
  then show ?thesis using d pm a' by (simp add: r_def med_def)
qed

lemma unknown_loop_ok:
  assumes "solver_ok solve" "Rc \<noteq> []" "0 < m"
    and "positive_matrix m Rc" "positive_matrix m W" "length W = length Rc"
    and b: "length lb = m" "length ub = m"
      "\<forall>j < m. \<exists>l u. lb ! j = Fin l \<and> ub ! j = Fin u \<and> 0 < l \<and> l \<le> u"
  shows "R_atlas \<noteq> [] \<Longrightarrow> positive_matrix m R_atlas \<Longrightarrow>
         list_all (\<lambda>x. length x = length R_atlas) a \<Longrightarrow>
         proportions solve R_atlas Rc W = Inr a \<Longrightarrow>
         length a = length Rc \<Longrightarrow> list_all unit_sum_row a \<Longrightarrow>
         \<exists>R' a'. unknown_loop solve lb ub Rc W n (R_atlas, a) = Inr (R', a')
           \<and> proportions solve R' Rc W = Inr a'
           \<and> length a' = length Rc \<and> list_all unit_sum_row a'"
proof (induction n arbitrary: R_atlas a)
  case 0
  then show ?case by simp
next
  case (Suc n)
  obtain r a' where s: "unknown_iteration solve lb ub Rc W (R_atlas, a) = Inr (R_atlas @ [r], a')"
    "positive_matrix m (R_atlas @ [r])"
    "proportions solve (R_atlas @ [r]) Rc W = Inr a'"
    "length a' = length Rc" "list_all unit_sum_row a'"
    "list_all (\<lambda>x. length x = Suc (length R_atlas)) a'"
    using unknown_iteration_ok[OF assms(1,2) Suc.prems(1) assms(3) Suc.prems(2) assms(4,5,6)
        Suc.prems(3,5) b] by blast
  have ne: "R_atlas @ [r] \<noteq> []" by simp
  have l: "list_all (\<lambda>x. length x = length (R_atlas @ [r])) a'" using s(6) by simp
  from Suc.IH[OF ne s(2) l s(3) s(4) s(5)] show ?case using s(1) by simp
qed

subsection \<open>The ratios and the weights of corrected counts\<close>

lemma fold_fminimum_Fin: "fold fminimum (map Fin cs) (Fin c) = Fin (fold min cs c)"
  by (induction cs arbitrary: c) (simp_all add: fminimum_def isnan_def min_def)

lemma fold_fmaximum_Fin: "fold fmaximum (map Fin cs) (Fin c) = Fin (fold max cs c)"
  by (induction cs arbitrary: c) (simp_all add: fmaximum_def isnan_def max_def)

lemma fold_min_le_fold_max_gen: "a \<le> b \<Longrightarrow> fold min cs a \<le> fold max cs (b::real)"
proof (induction cs arbitrary: a b)
  case Nil
  then show ?case by simp
next
  case (Cons c cs)
  have "min c a \<le> max c b" using Cons.prems by (simp add: min_def max_def)
  from Cons.IH[OF this] show ?case by simp
qed

lemma fold_min_pos: "0 < c \<Longrightarrow> \<forall>x \<in> set cs. 0 < x \<Longrightarrow> 0 < fold min cs (c::real)"
  by (induction cs arbitrary: c) simp_all

lemma column_positive:
  assumes "positive_matrix m M" "j < m"
  shows "\<exists>cs. column j M = map Fin cs \<and> (\<forall>c \<in> set cs. 0 < c)"
  using assms(1)
proof (induction M)
  case Nil
  then show ?case by (simp add: column_def)
next
  case (Cons r M)
  then obtain cs where cs: "column j M = map Fin cs" "\<forall>c \<in> set cs. 0 < c"
    by (auto simp: positive_matrix_def)
  have "length r = m" "list_all positive_cell r"
    using Cons.prems by (simp_all add: positive_matrix_def)
  then have "positive_cell (r ! j)" using assms(2) by (simp add: list_all_length)
  then obtain c where "r ! j = Fin c" "0 < c" by (auto simp: positive_cell_Fin)
  then have "column j (r # M) = map Fin (c # cs) \<and> (\<forall>c \<in> set (c # cs). 0 < c)"
    using cs by (simp add: column_def)
  then show ?case by (intro exI[of _ "c # cs"])
qed

lemma min_max_axis0_positive:
  assumes "M \<noteq> []" "positive_matrix m M"
    and "min_axis0 M = Inr lb" "max_axis0 M = Inr ub"
  shows "length lb = m" and "length ub = m"
    and "\<forall>j < m. \<exists>l u. lb ! j = Fin l \<and> ub ! j = Fin u \<and> 0 < l \<and> l \<le> u"
proof -
  have nc: "ncols M = m" using assms(1) positive_matrix_rows[OF assms(2)] by (rule ncols_rows)
  have lb: "lb = map (\<lambda>j. fold fminimum (tl (column j M)) (hd (column j M))) [0..<m]"
    and ub: "ub = map (\<lambda>j. fold fmaximum (tl (column j M)) (hd (column j M))) [0..<m]"
    using assms(1,3,4) nc by (simp_all add: min_axis0_def max_axis0_def)
  show "length lb = m" "length ub = m" by (simp_all add: lb ub)
  show "\<forall>j < m. \<exists>l u. lb ! j = Fin l \<and> ub ! j = Fin u \<and> 0 < l \<and> l \<le> u"
  proof (intro allI impI)
    fix j assume j: "j < m"
    obtain cs where cs: "column j M = map Fin cs" "\<forall>c \<in> set cs. 0 < c"
      using column_positive[OF assms(2) j] by blast
    have "cs \<noteq> []" using cs(1) assms(1) by (auto simp: column_def)
    then obtain c cs' where c: "cs = c # cs'" by (cases cs) auto
    have "lb ! j = Fin (fold min cs' c)" "ub ! j = Fin (fold max cs' c)"
      using j by (simp_all add: lb ub cs(1) c fold_fminimum_Fin fold_fmaximum_Fin)
    moreover have "0 < fold min cs' c" using cs(2) c by (intro fold_min_pos) simp_all
    moreover have "fold min cs' c \<le> fold max cs' c" by (rule fold_min_le_fold_max_gen) simp
    ultimately show "\<exists>l u. lb ! j = Fin l \<and> ub ! j = Fin u \<and> 0 < l \<and> l \<le> u"
      by blast
  qed
qed

lemma row_ratios_positive:
  "list_all2 corrected_cell ms ds \<Longrightarrow>
   list_all positive_cell (map2 (\<lambda>m d. fround (fdiv m d)) ms ds)"
  by (induction rule: list_all2_induct)
    (auto simp: corrected_cell_Fin positive_cell_def round64_pos)

lemma ratios_positive:
  assumes "same_shape M N" "corrected_counts M N"
  shows "positive_matrix (ncols M) (div_matrix M N)"
proof -
  have len: "length N = length M" using assms(1) by (rule same_shape_length)
  have L: "length (div_matrix M N) = length M" using len by (simp add: div_matrix_def)
  have row: "length (div_matrix M N ! i) = ncols M
        \<and> list_all positive_cell (div_matrix M N ! i)"
    if i: "i < length M" for i
  proof -
    have e: "div_matrix M N ! i = map2 (\<lambda>m d. fround (fdiv m d)) (M ! i) (N ! i)"
      using i len by (simp add: div_matrix_def)
    have "list_all2 corrected_cell (M ! i) (N ! i)"
      using assms(2) i by (simp add: corrected_counts_def list_all2_conv_all_nth)
    then have "list_all positive_cell (map2 (\<lambda>m d. fround (fdiv m d)) (M ! i) (N ! i))"
      by (rule row_ratios_positive)
    moreover have "length (map2 (\<lambda>m d. fround (fdiv m d)) (M ! i) (N ! i)) = ncols M"
      using same_shape_row[OF assms(1) i] by simp
    ultimately show ?thesis unfolding e by blast
  qed
  show ?thesis
    unfolding positive_matrix_def list_all_length[of _ "div_matrix M N"] L
    using row by blast
qed

lemma corrected_depths_positive:
  assumes "corrected_counts M N"
  shows "list_all (list_all positive_cell) N"
proof -
  have "list_all positive_cell ds" if "list_all2 corrected_cell ms ds" for ms ds
    using that by (rule list_all2_right) (auto simp: corrected_cell_Fin positive_cell_def)
  then show ?thesis
    using assms unfolding corrected_counts_def by (rule list_all2_right[rotated])
qed

lemma weights_positive:
  assumes "same_shape M N" "corrected_counts M N" "M \<noteq> []" "0 < ncols M"
  shows "positive_matrix (ncols M) (map (map (\<lambda>d. fdiv d (msum N))) N)"
proof -
  have len: "length N = length M" using assms(1) by (rule same_shape_length)
  note p = corrected_depths_positive[OF assms(2)]
  have "length (N ! 0) = ncols M" using same_shape_row[OF assms(1), of 0] assms(3) by simp
  then have "N ! 0 \<noteq> []" using assms(4) by auto
  then have "concat N \<noteq> []" using len assms(3) by (cases N) auto
  moreover have "list_all positive_cell (concat N)" using p by (simp add: list_all_iff)
  ultimately obtain t where t: "msum N = Fin t" "0 < t"
    using fsum_positive[of "concat N"] by (auto simp: msum_def positive_cell_Fin)
  have "length (N ! i) = ncols M \<and> list_all positive_cell (map (\<lambda>d. fdiv d (msum N)) (N ! i))"
    if i: "i < length M" for i
  proof -
    have "list_all positive_cell (N ! i)" using p i len by (simp add: list_all_length)
    then have "list_all positive_cell (map (\<lambda>d. fdiv d (Fin t)) (N ! i))"
      using t(2) by (auto simp: list_all_iff positive_cell_Fin)
    then show ?thesis using same_shape_row[OF assms(1) i] t(1) by simp
  qed
  then show ?thesis using len by (simp add: positive_matrix_def list_all_length)
qed

lemma init_positive:
  assumes sh: "init_shapes self"
    and cr: "corrected_counts (R_methylated self) (R_depths self)"
    and cx: "corrected_counts (X_methylated self) (X_depths self)"
  shows "positive_matrix (ncols (R_methylated self)) (atlas_ratios self)"
    and "positive_matrix (ncols (R_methylated self)) (cfdna_ratios self)"
    and "positive_matrix (ncols (R_methylated self)) (depth_weights self)"
    and "length (depth_weights self) = length (cfdna_ratios self)"
    and "cfdna_ratios self \<noteq> []" and "atlas_ratios self \<noteq> []"
    and "length (cfdna_ratios self) = length (X_methylated self)"
proof -
  have x: "same_shape (X_methylated self) (X_depths self)" "X_methylated self \<noteq> []"
    and r: "same_shape (R_methylated self) (R_depths self)" "R_methylated self \<noteq> []"
    and c: "0 < ncols (R_methylated self)" "ncols (X_methylated self) = ncols (R_methylated self)"
    using sh by (simp_all add: init_shapes_def)
  show "positive_matrix (ncols (R_methylated self)) (atlas_ratios self)"
    unfolding atlas_ratios_def by (rule ratios_positive[OF r(1) cr])
  show "positive_matrix (ncols (R_methylated self)) (cfdna_ratios self)"
    unfolding cfdna_ratios_def using ratios_positive[OF x(1) cx] c(2) by simp
  show "positive_matrix (ncols (R_methylated self)) (depth_weights self)"
    unfolding depth_weights_def using weights_positive[OF x(1) cx x(2)] c by simp
  show "length (depth_weights self) = length (cfdna_ratios self)"
    using same_shape_length[OF x(1)] by (simp add: depth_weights_def cfdna_ratios_def div_matrix_def)
  show l: "length (cfdna_ratios self) = length (X_methylated self)"
    using same_shape_length[OF x(1)] by (simp add: cfdna_ratios_def div_matrix_def)
  then show "cfdna_ratios self \<noteq> []" using x(2) by auto
  have "length (atlas_ratios self) = length (R_methylated self)"
    using same_shape_length[OF r(1)] by (simp add: atlas_ratios_def div_matrix_def)
  then show "atlas_ratios self \<noteq> []" using r(2) by auto
qed

subsection \<open>The proportions\<close>

lemma fsum_replicate_zero: "fsum (replicate n (Fin 0)) = Fin 0"
  by (induction n) simp_all

lemma map2_fmul_positive:
  "list_all positive_cell c \<Longrightarrow> list_all positive_cell b \<Longrightarrow>
   list_all positive_cell (map2 fmul c b)"
proof (induction c arbitrary: b)
  case Nil
  then show ?case by simp
next
  case (Cons x c)
  show ?case
  proof (cases b)
    case Nil
    then show ?thesis by simp
  next
    case (Cons y b')
    then show ?thesis using Cons.prems Cons.IH[of b'] by (auto simp: positive_cell_Fin)
  qed
qed

lemma products_positive:
  assumes "list_all positive_cell c" "list_all positive_cell b" "length b = length c" "c \<noteq> []"
  shows "positive_cell (fsum (map2 fmul c b))"
proof -
  have "list_all positive_cell (map2 fmul c b)"
    using assms(1,2) by (rule map2_fmul_positive)
  moreover have "map2 fmul c b \<noteq> []" using assms(3,4) by (cases c; cases b) auto
  ultimately show ?thesis by (rule fsum_positive)
qed

lemma solver_ok_first_column: "solver_ok first_column_solver"
  unfolding solver_ok_def
proof (intro allI impI)
  fix A b assume "positive_system A b"
  then have A: "A \<noteq> []" "0 < ncols A" "rectangular A" "all_cells positive_cell A"
    "length b = length A" "list_all positive_cell b"
    by (simp_all add: positive_system_def)
  have c: "list_all positive_cell (column 0 A)"
    using A(2,3,4) by (auto simp: column_def rectangular_def all_cells_def list_all_iff)
  have ne: "column 0 A \<noteq> []" using A(1) by (simp add: column_def)
  have lc: "length (column 0 A) = length A" by (simp add: column_def)
  obtain p where p: "fsum (map2 fmul (column 0 A) b) = Fin p" "0 < p"
    using products_positive[OF c A(6) _ ne] A(5) lc by (auto simp: positive_cell_Fin)
  obtain q where q: "fsum (map2 fmul (column 0 A) (column 0 A)) = Fin q" "0 < q"
    using products_positive[OF c c _ ne] by (auto simp: positive_cell_Fin)
  show "length (first_column_solver A b 3000) = ncols A
        \<and> nonneg_solution (first_column_solver A b 3000)"
    using A(2) p q
    by (simp add: first_column_solver_def Let_def nonneg_solution_def nonneg_cell_def
        list_all_iff fsum_replicate_zero)
qed

text \<open>
  On a positive system the least squares solution on the first tissue alone has a
  smaller squared residual than the zero vector: a vector that minimises the squared
  residual over the vectors without negative entry is not zero, and so has a positive
  sum.
\<close>

lemma fsum_zero_coefficients:
  "fsum (map2 fmul (map Fin rs) (replicate k (Fin 0))) = Fin 0"
proof (induction rs arbitrary: k)
  case Nil
  then show ?case by simp
next
  case (Cons r rs)
  then show ?case by (cases k) simp_all
qed

lemma positive_row_Fin:
  assumes "list_all positive_cell r" "length r = n" "0 < n"
  shows "\<exists>a rs. r = Fin a # map Fin rs \<and> 0 < a \<and> length rs = n - 1"
proof -
  have "list_all nonneg_cell r"
    using assms(1) by (auto simp: list_all_iff positive_cell_Fin nonneg_cell_def)
  then obtain cs where cs: "r = map Fin cs" using nonneg_cells_Fin by blast
  then obtain a rs where c: "cs = a # rs" using assms(2,3) by (cases cs) auto
  have "0 < a" using assms(1) by (simp add: cs c positive_cell_def)
  then show ?thesis using cs c assms(2) by auto
qed

lemma residual_sums:
  assumes n: "0 < n"
  shows "length b = length A \<Longrightarrow> positive_matrix n A \<Longrightarrow> list_all positive_cell b \<Longrightarrow>
         \<exists>S1 S2 S3.
            fsum (map2 fmul (column 0 A) b) = Fin S1
          \<and> fsum (map2 fmul (column 0 A) (column 0 A)) = Fin S2
          \<and> (\<forall>t. squared_residual A b (Fin t # replicate (n - 1) (Fin 0))
                   = Fin (t * t * S2 - 2 * t * S1 + S3))
          \<and> squared_residual A b (replicate n (Fin 0)) = Fin S3
          \<and> (A \<noteq> [] \<longrightarrow> 0 < S1 \<and> 0 < S2)"
proof (induction A arbitrary: b)
  case Nil
  then show ?case by (simp add: column_def squared_residual_def)
next
  case (Cons row A)
  obtain v b' where b: "b = v # b'" using Cons.prems(1) by (cases b) auto
  obtain w where w: "v = Fin w" "0 < w"
    using Cons.prems(3) by (auto simp: b positive_cell_Fin)
  have r: "list_all positive_cell row" "length row = n" and A: "positive_matrix n A"
    using Cons.prems(2) by (simp_all add: positive_matrix_def)
  obtain a rs where row: "row = Fin a # map Fin rs" "0 < a" "length rs = n - 1"
    using positive_row_Fin[OF r n] by blast
  obtain S1 S2 S3 where S:
    "fsum (map2 fmul (column 0 A) b') = Fin S1"
    "fsum (map2 fmul (column 0 A) (column 0 A)) = Fin S2"
    "\<And>t. squared_residual A b' (Fin t # replicate (n - 1) (Fin 0))
                   = Fin (t * t * S2 - 2 * t * S1 + S3)"
    "squared_residual A b' (replicate n (Fin 0)) = Fin S3"
    "A \<noteq> [] \<longrightarrow> 0 < S1 \<and> 0 < S2"
    using Cons.IH[of b'] Cons.prems(1,3) A by (auto simp: b)
  have S12: "0 \<le> S1" "0 \<le> S2"
    using S(1,2,5) by (cases "A = []"; simp add: column_def)+
  have z: "replicate n (Fin 0) = Fin 0 # replicate (n - 1) (Fin 0)"
    using n by (cases n) simp_all
  have 1: "fsum (map2 fmul (column 0 (row # A)) b) = Fin (a * w + S1)"
    using S(1) by (simp add: column_def b w row)
  have 2: "fsum (map2 fmul (column 0 (row # A)) (column 0 (row # A))) = Fin (a * a + S2)"
    using S(2) by (simp add: column_def row)
  have 3: "squared_residual (row # A) b (Fin t # replicate (n - 1) (Fin 0))
             = Fin (t * t * (a * a + S2) - 2 * t * (a * w + S1) + (w * w + S3))" for t
    using S(3)[of t]
    by (simp add: squared_residual_def b w row fsum_zero_coefficients fsub_def Let_def
        algebra_simps)
  have 4: "squared_residual (row # A) b (replicate n (Fin 0)) = Fin (w * w + S3)"
    using S(4) unfolding z
    by (simp add: squared_residual_def b w row fsum_zero_coefficients fsub_def Let_def)
  have 5: "0 < a * w + S1 \<and> 0 < a * a + S2"
    using row(2) w(2) S12 by (simp add: add_pos_nonneg)
  show ?case using 1 2 3 4 5 by blast
qed

lemma zero_is_not_least_squares:
  assumes "positive_system A b"
  shows "flt (squared_residual A b (first_column_solver A b 3000))
             (squared_residual A b (replicate (ncols A) (Fin 0)))"
proof -
  have A: "A \<noteq> []" "0 < ncols A" "rectangular A" "all_cells positive_cell A"
    "length b = length A" "list_all positive_cell b"
    using assms by (simp_all add: positive_system_def)
  have pm: "positive_matrix (ncols A) A"
    using A(3,4) by (simp add: positive_matrix_def rectangular_def all_cells_def list_all_iff)
  obtain S1 S2 S3 where S:
    "fsum (map2 fmul (column 0 A) b) = Fin S1"
    "fsum (map2 fmul (column 0 A) (column 0 A)) = Fin S2"
    "\<And>t. squared_residual A b (Fin t # replicate (ncols A - 1) (Fin 0))
                   = Fin (t * t * S2 - 2 * t * S1 + S3)"
    "squared_residual A b (replicate (ncols A) (Fin 0)) = Fin S3"
    "0 < S1" "0 < S2"
    using residual_sums[OF A(2,5) pm A(6)] A(1) by auto
  have x: "first_column_solver A b 3000 = Fin (S1 / S2) # replicate (ncols A - 1) (Fin 0)"
    using S(1,2,6) by (simp add: first_column_solver_def Let_def)
  have "S1 / S2 * (S1 / S2) * S2 - 2 * (S1 / S2) * S1 + S3 = S3 - S1 * S1 / S2"
    using S(6) by (simp add: field_simps)
  moreover have "0 < S1 * S1 / S2" using S(5,6) by simp
  ultimately have "S1 / S2 * (S1 / S2) * S2 - 2 * (S1 / S2) * S1 + S3 < S3" by linarith
  then show ?thesis unfolding x S(3) S(4) by simp
qed

lemmas init_defs =
  init_atlas_and_alpha_hat_def atlas_ratios_def cfdna_ratios_def depth_weights_def
  div_matrix_def sub_matrix_def transpose_matrix_def column_def ncols_def msum_def
  proportions_def nnls_def add_epsilon_def normalize_rows_def min_axis0_def max_axis0_def
  dot_def median_axis0_def median_def sort_f_def unknown_profile_def unknown_iteration_def
  fminimum_def fmaximum_def isnan_def fle_def fsub_def Let_def first_tissue_solver_def
  first_column_solver_def example_model_def round64_half round64_quarter
  round64_three_quarters

lemma example_model_shapes:
  "init_shapes (example_model\<lparr>n_unknown_tissues := u\<rparr>)"
  "corrected_counts (R_methylated (example_model\<lparr>n_unknown_tissues := u\<rparr>))
     (R_depths (example_model\<lparr>n_unknown_tissues := u\<rparr>))"
  "corrected_counts (X_methylated (example_model\<lparr>n_unknown_tissues := u\<rparr>))
     (X_depths (example_model\<lparr>n_unknown_tissues := u\<rparr>))"
  by (simp_all add: example_model_def init_shapes_def same_shape_def rectangular_def ncols_def
      corrected_counts_def corrected_cell_def)

text \<open>
  Claim C3, as the code has it. For pseudo-count-corrected count matrices of the atlas
  and of the samples, non-empty and of matching shapes, any number of unknown tissues,
  and a solver that gives every positive system a coefficient vector with one entry per
  tissue, no negative entry and a positive sum, the initializer returns, and in the
  proportion matrix \<open>alpha_hat\<close> (before the logarithm) every entry is finite and
  not negative and every row sums to 1 within the tolerance \<open>1e-6\<close>. It is the result
  of the three statements \<open>proportions\<close> on the final atlas: the solve with its
  normalization, \<open>1e-6\<close> added to every entry (not a floor at \<open>1e-6\<close>), and the division
  of every row by its sum.
\<close>

theorem initializer_alpha_on_simplex:
  assumes "init_shapes self"
    and "corrected_counts (R_methylated self) (R_depths self)"
    and "corrected_counts (X_methylated self) (X_depths self)"
    and "solver_ok solve"
  shows "\<exists>R_atlas alpha_hat.
           init_atlas_and_alpha_hat self solve = Inr (R_atlas, alpha_hat)
         \<and> proportions solve R_atlas (cfdna_ratios self) (depth_weights self) = Inr alpha_hat
         \<and> length alpha_hat = length (X_methylated self)
         \<and> list_all simplex_row alpha_hat"
proof -
  let ?m = "ncols (R_methylated self)"
  note f = init_positive[OF assms(1,2,3)]
  have m: "0 < ?m" using assms(1) by (simp add: init_shapes_def)
  obtain a where a:
    "proportions solve (atlas_ratios self) (cfdna_ratios self) (depth_weights self) = Inr a"
    "length a = length (cfdna_ratios self)" "list_all unit_sum_row a"
    "list_all (\<lambda>x. length x = length (atlas_ratios self)) a"
    using proportions_ok[OF assms(4) f(5) f(6) m f(1) f(2) f(3) f(4)] by blast
  obtain lb ub where b: "min_axis0 (atlas_ratios self) = Inr lb"
    "max_axis0 (atlas_ratios self) = Inr ub"
    using f(6) by (simp add: min_axis0_def max_axis0_def)
  note lu = min_max_axis0_positive[OF f(6) f(1) b]
  obtain R' a' where l:
    "unknown_loop solve lb ub (cfdna_ratios self) (depth_weights self)
        (nat (n_unknown_tissues self)) (atlas_ratios self, a) = Inr (R', a')"
    "proportions solve R' (cfdna_ratios self) (depth_weights self) = Inr a'"
    "length a' = length (cfdna_ratios self)" "list_all unit_sum_row a'"
    using unknown_loop_ok[OF assms(4) f(5) m f(2) f(3) f(4) lu f(6) f(1) a(4) a(1) a(2) a(3)]
    by blast
  have "init_atlas_and_alpha_hat self solve = Inr (R', a')"
    using a(1) b l(1) by (simp add: init_atlas_and_alpha_hat_def Let_def)
  moreover have "list_all simplex_row a'"
    using l(4) unit_sum_simplex by (simp add: list_all_iff)
  ultimately show ?thesis using l f(7) by simp
qed

text \<open>
  The example: the sample has the rates of the first tissue, so the solver's vectors
  (1, 0) and (1, 0, 0) are least squares solutions with the residual 0. The row of
  the unknown tissue is (1/2, 1/2).
\<close>

theorem initializer_alpha_on_simplex_witness:
  "init_shapes (example_model\<lparr>n_unknown_tissues := 1\<rparr>) \<and>
   corrected_counts (R_methylated (example_model\<lparr>n_unknown_tissues := 1\<rparr>))
     (R_depths (example_model\<lparr>n_unknown_tissues := 1\<rparr>)) \<and>
   corrected_counts (X_methylated (example_model\<lparr>n_unknown_tissues := 1\<rparr>))
     (X_depths (example_model\<lparr>n_unknown_tissues := 1\<rparr>)) \<and>
   solver_ok first_column_solver \<and>
   init_atlas_and_alpha_hat (example_model\<lparr>n_unknown_tissues := 1\<rparr>) first_column_solver
     = Inr ([[Fin (1 / 2), Fin (1 / 2)], [Fin (1 / 4), Fin (3 / 4)], [Fin (1 / 2), Fin (1 / 2)]],
            [[Fin (1000001 / 1000003), Fin (1 / 1000003), Fin (1 / 1000003)]]) \<and>
   nnls first_column_solver
       [[Fin (1 / 2), Fin (1 / 2)], [Fin (1 / 4), Fin (3 / 4)], [Fin (1 / 2), Fin (1 / 2)]]
       (cfdna_ratios example_model) (depth_weights example_model)
     = Inr [[Fin 1, Fin 0, Fin 0]] \<and>
   list_all simplex_row [[Fin (1000001 / 1000003), Fin (1 / 1000003), Fin (1 / 1000003)]]"
proof -
  have r: "init_atlas_and_alpha_hat (example_model\<lparr>n_unknown_tissues := 1\<rparr>)
             first_column_solver
     = Inr ([[Fin (1 / 2), Fin (1 / 2)], [Fin (1 / 4), Fin (3 / 4)], [Fin (1 / 2), Fin (1 / 2)]],
            [[Fin (1000001 / 1000003), Fin (1 / 1000003), Fin (1 / 1000003)]])"
    by (simp add: init_defs)
  have n: "nnls first_column_solver
       [[Fin (1 / 2), Fin (1 / 2)], [Fin (1 / 4), Fin (3 / 4)], [Fin (1 / 2), Fin (1 / 2)]]
       (cfdna_ratios example_model) (depth_weights example_model)
     = Inr [[Fin 1, Fin 0, Fin 0]]"
    by (simp add: init_defs)
  from initializer_alpha_on_simplex[OF example_model_shapes[of 1] solver_ok_first_column]
    example_model_shapes[of 1] solver_ok_first_column r n
  show ?thesis by simp
qed

text \<open>
  The claim fails as it is stated: here the solve gives the proportions (1, 0); the code
  adds \<open>1e-6\<close> to both and divides by 1.000002, whereas a floor at \<open>1e-6\<close> would change
  the second only and divide by 1.000001.
\<close>

theorem epsilon_is_added_not_floored_counterexample:
  "init_atlas_and_alpha_hat example_model first_column_solver
     = Inr ([[Fin (1 / 2), Fin (1 / 2)], [Fin (1 / 4), Fin (3 / 4)]],
            [[Fin (1000001 / 1000002), Fin (1 / 1000002)]]) \<and>
   nnls first_column_solver (atlas_ratios example_model) (cfdna_ratios example_model)
       (depth_weights example_model) = Inr [[Fin 1, Fin 0]] \<and>
   normalize_rows (floor_epsilon [[Fin 1, Fin 0]])
     = [[Fin (1000000 / 1000001), Fin (1 / 1000001)]]"
  by (simp add: init_defs floor_epsilon_def)

subsection \<open>The median, and the loop over the unknown tissues\<close>

text \<open>The median: the sorted list has the same elements, in order.\<close>

lemma length_insort_f [simp]: "length (insort_f x xs) = Suc (length xs)"
  by (induction xs) simp_all

lemma length_sort_f [simp]: "length (sort_f xs) = length xs"
  by (induction xs) (simp_all add: sort_f_def)

lemma set_insort_f [simp]: "set (insort_f x xs) = insert x (set xs)"
  by (induction xs) auto

lemma set_sort_f [simp]: "set (sort_f xs) = set xs"
  by (induction xs) (simp_all add: sort_f_def)

lemma fle_trans: "fle a b \<Longrightarrow> fle b c \<Longrightarrow> fle a c"
  by (cases a; cases b; cases c) (auto simp: fle_def)

lemma fle_total: "\<not> isnan a \<Longrightarrow> \<not> isnan b \<Longrightarrow> fle a b \<or> fle b a"
  by (cases a; cases b) (auto simp: fle_def isnan_def)

lemma sorted_insort_f:
  "\<not> isnan x \<Longrightarrow> \<forall>y \<in> set xs. \<not> isnan y \<Longrightarrow> sorted_wrt fle xs \<Longrightarrow>
   sorted_wrt fle (insort_f x xs)"
proof (induction xs)
  case Nil
  then show ?case by simp
next
  case (Cons y ys)
  show ?case
  proof (cases "fle x y")
    case True
    then have "\<forall>z \<in> set ys. fle x z" using Cons.prems(3) fle_trans by auto
    then show ?thesis using True Cons.prems(3) by simp
  next
    case False
    then have "fle y x" using fle_total[of x y] Cons.prems(1,2) by simp
    then show ?thesis using False Cons by auto
  qed
qed

lemma sorted_sort_f: "\<forall>y \<in> set xs. \<not> isnan y \<Longrightarrow> sorted_wrt fle (sort_f xs)"
proof (induction xs)
  case Nil
  then show ?case by (simp add: sort_f_def)
next
  case (Cons x xs)
  then have "sorted_wrt fle (insort_f x (sort_f xs))"
    by (intro sorted_insort_f) simp_all
  then show ?case by (simp add: sort_f_def)
qed

lemma median_odd:
  assumes "odd (length xs)" "\<forall>y \<in> set xs. \<not> isnan y"
  shows "median xs = sort_f xs ! (length xs div 2)" and "median xs \<in> set xs"
proof -
  have n: "xs \<noteq> []" using assms(1) by auto
  show m: "median xs = sort_f xs ! (length xs div 2)"
    using assms n by (simp add: median_def Let_def list_ex_iff)
  have "length xs div 2 < length (sort_f xs)" using n by simp
  then have "sort_f xs ! (length xs div 2) \<in> set (sort_f xs)" by (rule nth_mem)
  then show "median xs \<in> set xs" using m by simp
qed

lemma median_examples:
  "median [Fin 3, Fin 1, Fin 2] = Fin 2"
  "median [Fin 4, Fin 1, Fin 3, Fin 2] = Fin (5 / 2)"
  "median [Fin 1, NaN, Fin 0] = NaN"
  "median [] = NaN"
  by (simp_all add: median_def sort_f_def fle_def isnan_def Let_def)

text \<open>
  One turn of the loop: the residual is the reconstruction \<open>alpha_hat . R_atlas\<close> minus
  the observed ratios, its median is taken per marker over the samples, the row
  computed from \<open>lb\<close>, \<open>ub\<close> and the medians is appended, and the proportions are solved
  again on the longer atlas. \<open>lb\<close> and \<open>ub\<close> are those of the atlas of the known tissues.
\<close>

lemma unknown_iteration_Inr:
  assumes "unknown_iteration solve lb ub Rc W (A, a) = Inr (A', a')"
  shows "\<exists>recon. dot a A = Inr recon
           \<and> A' = A @ [unknown_profile lb ub (median_axis0 (sub_matrix recon Rc))]
           \<and> proportions solve A' Rc W = Inr a'"
  using assms by (auto simp: unknown_iteration_def Let_def split: sum.splits)



section \<open>The driver\<close>

subsection \<open>The early stop\<close>

lemma iteration_Inr:
  assumes "iteration upd g self P s = Inr (s', stop)"
  shows "\<exists>loss.
      objective self (data (Optimizer_zero_grad (run_optimizer s) (run_store s) AlphaLogit))
        (data (Optimizer_zero_grad (run_optimizer s) (run_store s) GammaLogit)) = Inr loss
    \<and> (run_optimizer s', run_store s') = Optimizer_step upd loss (run_optimizer s,
         backward g self (Optimizer_zero_grad (run_optimizer s) (run_store s)))
    \<and> loss_history s' = loss_history s @ [loss]
    \<and> (if fge loss (best_loss s)
        then best_loss s' = best_loss s
           \<and> n_steps_without_improvement s' = n_steps_without_improvement s + 1
           \<and> stop = (P \<le> n_steps_without_improvement s + 1)
        else best_loss s' = loss \<and> n_steps_without_improvement s' = 0 \<and> \<not> stop)"
proof -
  let ?st1 = "Optimizer_zero_grad (run_optimizer s) (run_store s)"
  obtain loss where l: "objective self (data (?st1 AlphaLogit)) (data (?st1 GammaLogit)) = Inr loss"
    using assms by (cases "objective self (data (?st1 AlphaLogit)) (data (?st1 GammaLogit))")
      (simp_all add: iteration_def Let_def)
  obtain opt' st3 where o: "Optimizer_step upd loss (run_optimizer s, backward g self ?st1) = (opt', st3)"
    by (cases "Optimizer_step upd loss (run_optimizer s, backward g self ?st1)")
  show ?thesis
  proof (cases "fge loss (best_loss s)")
    case True
    then have "s' = s\<lparr>run_store := st3, run_optimizer := opt',
                         loss_history := loss_history s @ [loss],
                         extra_loss := extra_loss s @ [loss],
                         n_steps_without_improvement := n_steps_without_improvement s + 1\<rparr>"
      and "stop = (P \<le> n_steps_without_improvement s + 1)"
      using assms l o by (simp_all add: iteration_def Let_def)
    then show ?thesis using l o True by simp
  next
    case False
    then have "s' = s\<lparr>run_store := st3, run_optimizer := opt',
                         loss_history := loss_history s @ [loss],
                         extra_loss := extra_loss s @ [loss],
                         best_loss := loss,
                         n_steps_without_improvement := 0\<rparr>"
      and "\<not> stop"
      using assms l o by (simp_all add: iteration_def Let_def)
    then show ?thesis using l o False by simp
  qed
qed

lemma fge_iff: "\<not> isnan a \<Longrightarrow> \<not> isnan b \<Longrightarrow> fge a b \<longleftrightarrow> \<not> flt a b"
  by (cases a; cases b) (auto simp: fge_def fle_def isnan_def)

lemma flt_trans: "flt a b \<Longrightarrow> flt b c \<Longrightarrow> flt a c"
  by (cases a; cases b; cases c) auto

lemma flt_le_trans: "flt a b \<Longrightarrow> \<not> flt c b \<Longrightarrow> \<not> isnan c \<Longrightarrow> flt a c"
  by (cases a; cases b; cases c) (auto simp: isnan_def)

lemma flt_PInf: "flt a b \<Longrightarrow> flt a PInf"
  by (cases a; cases b) auto

lemma not_flt_PInf: "\<not> isnan a \<Longrightarrow> \<not> flt a PInf \<Longrightarrow> a = PInf"
  by (cases a) (auto simp: isnan_def)

lemma flt_irrefl: "\<not> flt a a"
  by (cases a) auto

lemma flt_not_nan: "flt a b \<Longrightarrow> \<not> isnan a \<and> \<not> isnan b"
  by (cases a; cases b) (auto simp: isnan_def)

lemma fge_PInf: "\<not> isnan l \<Longrightarrow> fge l PInf \<longleftrightarrow> l = PInf"
  by (cases l) (auto simp: fge_def fle_def isnan_def)

lemma first_min_keep:
  assumes "first_min h k" "\<not> flt l (h ! k)"
  shows "first_min (h @ [l]) k"
  using assms by (auto simp: first_min_def nth_append)

lemma first_min_new:
  assumes "\<forall>i<length h. flt l (h ! i)"
  shows "first_min (h @ [l]) (length h)"
  using assms by (auto simp: first_min_def nth_append)

lemma stall_keep:
  assumes "stall h b c" "\<not> isnan l" "fge l b"
  shows "stall (h @ [l]) b (c + 1)"
  using assms(1) unfolding stall_def
proof (elim disjE conjE exE)
  assume a: "list_all (\<lambda>l. l = PInf) h" "b = PInf" "c = int (length h)"
  then have "l = PInf" using assms(2,3) by (simp add: fge_PInf)
  then show "(list_all (\<lambda>l. l = PInf) (h @ [l]) \<and> b = PInf \<and> c + 1 = int (length (h @ [l])))
     \<or> (\<exists>k. first_min (h @ [l]) k \<and> flt ((h @ [l]) ! k) PInf \<and> b = (h @ [l]) ! k
            \<and> c + 1 = int (length (h @ [l]) - 1 - k))"
    using a by simp
next
  fix k
  assume a: "first_min h k" "flt (h ! k) PInf" "b = h ! k" "c = int (length h - 1 - k)"
  have k: "k < length h" using a(1) by (simp add: first_min_def)
  have "\<not> isnan (h ! k)" using a(2) flt_not_nan by blast
  then have "\<not> flt l (h ! k)" using assms(2,3) a(3) by (simp add: fge_iff)
  from first_min_keep[OF a(1) this]
  have "first_min (h @ [l]) k \<and> flt ((h @ [l]) ! k) PInf \<and> b = (h @ [l]) ! k
            \<and> c + 1 = int (length (h @ [l]) - 1 - k)"
    using a k by (simp add: nth_append)
  then show "(list_all (\<lambda>l. l = PInf) (h @ [l]) \<and> b = PInf \<and> c + 1 = int (length (h @ [l])))
     \<or> (\<exists>k. first_min (h @ [l]) k \<and> flt ((h @ [l]) ! k) PInf \<and> b = (h @ [l]) ! k
            \<and> c + 1 = int (length (h @ [l]) - 1 - k))"
    by blast
qed

lemma stall_reset:
  assumes "stall h b c" "\<not> isnan l" "\<forall>x \<in> set h. \<not> isnan x" "\<not> fge l b"
  shows "stall (h @ [l]) l 0"
proof -
  have both: "(\<forall>i<length h. flt l (h ! i)) \<and> flt l PInf"
    using assms(1) unfolding stall_def
  proof (elim disjE conjE exE)
    assume a: "list_all (\<lambda>l. l = PInf) h" "b = PInf" "c = int (length h)"
    have "\<not> flt l PInf \<Longrightarrow> False"
      using not_flt_PInf[OF assms(2)] assms(2,4) a(2) by (simp add: fge_PInf)
    then have l: "flt l PInf" by blast
    then show ?thesis using a(1) by (simp add: list_all_length)
  next
    fix k
    assume a: "first_min h k" "flt (h ! k) PInf" "b = h ! k" "c = int (length h - 1 - k)"
    have nk: "\<not> isnan (h ! k)" using a(2) flt_not_nan by blast
    have lk: "flt l (h ! k)" using assms(2,4) a(3) nk by (simp add: fge_iff)
    have "flt l (h ! i)" if i: "i < length h" for i
    proof -
      have ni: "\<not> isnan (h ! i)" using assms(3) i by simp
      consider "i < k" | "i = k" | "k < i" by linarith
      then show "flt l (h ! i)"
      proof cases
        case 1
        then have "flt (h ! k) (h ! i)" using a(1) by (simp add: first_min_def)
        with lk show ?thesis by (rule flt_trans)
      next
        case 2
        then show ?thesis using lk by simp
      next
        case 3
        then have "\<not> flt (h ! i) (h ! k)" using a(1) i by (simp add: first_min_def)
        with lk show ?thesis using ni by (rule flt_le_trans)
      qed
    qed
    then show ?thesis using flt_PInf[OF lk] by simp
  qed
  then have "first_min (h @ [l]) (length h) \<and> flt ((h @ [l]) ! length h) PInf
      \<and> l = (h @ [l]) ! length h \<and> 0 = int (length (h @ [l]) - 1 - length h)"
    using first_min_new[of h l] by simp
  then show ?thesis unfolding stall_def by blast
qed

lemma stall_iteration:
  assumes it: "iteration upd g self P s = Inr (s', stop)" and inv: "stall_inv s"
    and nn: "\<forall>x \<in> set (loss_history s'). \<not> isnan x"
  shows "stall_inv s'"
    and "stop \<Longrightarrow> n_steps_without_improvement s' = n_steps_without_improvement s + 1
                  \<and> P \<le> n_steps_without_improvement s'"
    and "\<not> stop \<Longrightarrow> n_steps_without_improvement s' = 0
                  \<or> n_steps_without_improvement s' < P"
    and "length (loss_history s') = length (loss_history s) + 1"
proof -
  obtain loss where h: "loss_history s' = loss_history s @ [loss]"
    and c: "if fge loss (best_loss s)
        then best_loss s' = best_loss s
           \<and> n_steps_without_improvement s' = n_steps_without_improvement s + 1
           \<and> stop = (P \<le> n_steps_without_improvement s + 1)
        else best_loss s' = loss \<and> n_steps_without_improvement s' = 0 \<and> \<not> stop"
    using iteration_Inr[OF it] by blast
  have l: "\<not> isnan loss" and old: "\<forall>x \<in> set (loss_history s). \<not> isnan x"
    using nn h by simp_all
  show "stall_inv s'"
  proof (cases "fge loss (best_loss s)")
    case True
    from stall_keep[OF inv[unfolded stall_inv_def] l True] show ?thesis
      using c True h by (simp add: stall_inv_def)
  next
    case False
    from stall_reset[OF inv[unfolded stall_inv_def] l old False] show ?thesis
      using c False h by (simp add: stall_inv_def)
  qed
  show "stop \<Longrightarrow> n_steps_without_improvement s' = n_steps_without_improvement s + 1
                  \<and> P \<le> n_steps_without_improvement s'"
    using c by (auto split: if_splits)
  show "\<not> stop \<Longrightarrow> n_steps_without_improvement s' = 0
                  \<or> n_steps_without_improvement s' < P"
    using c by (auto split: if_splits)
  show "length (loss_history s') = length (loss_history s) + 1" using h by simp
qed

lemma loop_history_prefix:
  "optimize_loop upd g self P n s = Inr f \<Longrightarrow>
   \<exists>new. loss_history f = loss_history s @ new \<and> length new \<le> n"
proof (induction n arbitrary: s)
  case 0
  then show ?case by simp
next
  case (Suc n)
  from Suc.prems obtain s' stop where it: "iteration upd g self P s = Inr (s', stop)"
    and r: "if stop then f = s' else optimize_loop upd g self P n s' = Inr f"
    by (auto split: sum.splits if_splits)
  obtain loss where h: "loss_history s' = loss_history s @ [loss]"
    using iteration_Inr[OF it] by blast
  show ?case
  proof (cases stop)
    case True
    then show ?thesis using r h by simp
  next
    case False
    then obtain new where "loss_history f = loss_history s' @ new" "length new \<le> n"
      using r Suc.IH by auto
    then show ?thesis using h by simp
  qed
qed

lemma loop_post:
  assumes P: "1 \<le> P"
  shows "optimize_loop upd g self P n s = Inr f \<Longrightarrow> stall_inv s \<Longrightarrow>
         n_steps_without_improvement s < P \<Longrightarrow>
         \<forall>x \<in> set (loss_history f). \<not> isnan x \<Longrightarrow>
         stall_inv f \<and>
         (n_steps_without_improvement f = P \<or>
          (n_steps_without_improvement f < P \<and>
           length (loss_history f) = length (loss_history s) + n))"
proof (induction n arbitrary: s)
  case 0
  then show ?case by simp
next
  case (Suc n)
  from Suc.prems(1) obtain s' stop where it: "iteration upd g self P s = Inr (s', stop)"
    and r: "if stop then f = s' else optimize_loop upd g self P n s' = Inr f"
    by (auto split: sum.splits if_splits)
  have nn: "\<forall>x \<in> set (loss_history s'). \<not> isnan x"
  proof (cases stop)
    case True
    then show ?thesis using r Suc.prems(4) by simp
  next
    case False
    then obtain new where "loss_history f = loss_history s' @ new"
      using r loop_history_prefix by fastforce
    then show ?thesis using Suc.prems(4) by simp
  qed
  note st = stall_iteration[OF it Suc.prems(2) nn]
  show ?case
  proof (cases stop)
    case True
    then show ?thesis using r st(1,2) Suc.prems(3) by auto
  next
    case False
    then have "n_steps_without_improvement s' < P" using st(3) P by auto
    from Suc.IH[OF _ st(1) this Suc.prems(4)] False r show ?thesis
      using st(4) by auto
  qed
qed

lemma first_min_unique: "first_min h k \<Longrightarrow> first_min h k' \<Longrightarrow> k = k'"
proof (rule ccontr)
  assume a: "first_min h k" "first_min h k'" and ne: "k \<noteq> k'"
  consider "k < k'" | "k' < k" using ne by linarith
  then show False
  proof cases
    case 1
    then have "flt (h ! k') (h ! k)" using a(2) by (simp add: first_min_def)
    moreover have "\<not> flt (h ! k') (h ! k)" using a 1 by (simp add: first_min_def)
    ultimately show False by simp
  next
    case 2
    then have "flt (h ! k) (h ! k')" using a(1) by (simp add: first_min_def)
    moreover have "\<not> flt (h ! k) (h ! k')" using a 2 by (simp add: first_min_def)
    ultimately show False by simp
  qed
qed

lemma stall_inv_initial: "stall_inv (initial_state s0 a g)"
  by (simp add: stall_inv_def stall_def initial_state_def)

lemma deconvolute_Inr:
  assumes "deconvolute solve upd s0 gradients self max_n_iter patience = Inr (alpha, s)"
  shows "\<exists>a g. init_alpha_and_gamma self solve = Inr (a, g)
           \<and> optimize_loop upd gradients self patience (nat max_n_iter) (initial_state s0 a g)
               = Inr s
           \<and> alpha = softmax (data (run_store s AlphaLogit))"
  using assms by (auto simp: deconvolute_def split: sum.splits)

subsection \<open>The example runs\<close>

lemma init_single:
  "init_alpha_and_gamma (single_tissue_model\<lparr>beta := b\<rparr>) first_tissue_solver
     = Inr ([[Fin 0]], [[Fin 0, Fin 0]])"
  by (simp add: init_alpha_and_gamma_def init_atlas_and_alpha_hat_def atlas_ratios_def
      cfdna_ratios_def depth_weights_def div_matrix_def transpose_matrix_def column_def
      ncols_def msum_def proportions_def nnls_def add_epsilon_def normalize_rows_def
      min_axis0_def max_axis0_def Let_def first_tissue_solver_def single_tissue_model_def
      round64_half)

lemma init_single_plain:
  "init_alpha_and_gamma single_tissue_model first_tissue_solver
     = Inr ([[Fin 0]], [[Fin 0, Fin 0]])"
  using init_single[of "Fin 1"] by (simp add: single_tissue_model_def)

lemmas objective_defs =
  objective_def softmax_def softmax_row_def sigmoid_def mm_def loss_weights_def fpow_def
  depth_weights_def cfdna_ratios_def div_matrix_def sub_matrix_def column_def ncols_def
  msum_def single_tissue_model_def round64_half

lemma objective_single:
  "objective single_tissue_model [[Fin 0]] [[Fin 0, Fin 0]] = Inr (Fin 0)"
  by (simp add: objective_defs fsub_def Let_def)

lemmas run_defs =
  deconvolute_def init_single_plain initial_state_def iteration_def
  Optimizer_zero_grad_def adam_zero_grad_def Optimizer_step_def Optimizer_add_def
  Optimizer_default_def Optimizer_init_def adam_step_def backward_def accumulate_def
  descent_update_def zero_gradients_def nan_gradients_def
  fge_def fle_def clip_def fmaximum_def fminimum_def isnan_def fsub_def Let_def
  run_losses_def run_proportions_def run_gamma_logit_def objective_single

lemma example_run_patience_2:
  "run_losses (deconvolute first_tissue_solver descent_update () zero_gradients
      single_tissue_model 5 2) = Some [Fin 0, Fin 0, Fin 0]"
  "run_gamma_logit (deconvolute first_tissue_solver descent_update () zero_gradients
      single_tissue_model 5 2) = Some [[Fin 0, Fin 0]]"
  by (simp_all add: run_defs eval_nat_numeral)

lemma example_run_nan:
  "run_losses (deconvolute first_tissue_solver descent_update () nan_gradients
      (single_tissue_model\<lparr>beta := NaN\<rparr>) 3 1) = Some [NaN, NaN, NaN]"
  "run_proportions (deconvolute first_tissue_solver descent_update () nan_gradients
      (single_tissue_model\<lparr>beta := NaN\<rparr>) 3 1) = Some [[NaN]]"
  unfolding deconvolute_def init_single
  by (simp_all add: run_defs objective_defs eval_nat_numeral)

lemma run_losses_Some:
  "run_losses r = Some h \<Longrightarrow> \<exists>alpha s. r = Inr (alpha, s) \<and> loss_history s = h"
  by (cases r) (auto simp: run_losses_def split: prod.splits)

lemma run_gamma_logit_Some:
  "run_gamma_logit r = Some g \<Longrightarrow>
   \<exists>alpha s. r = Inr (alpha, s) \<and> data (run_store s GammaLogit) = g"
  by (cases r) (auto simp: run_gamma_logit_def split: prod.splits)

lemma first_min_zeros: "first_min [Fin 0, Fin 0, Fin 0] 0" "first_min [Fin 0, Fin 0] 0"
  by (auto simp: first_min_def nth_Cons split: nat.splits)


text \<open>
  Claim C5, as the code has it. With a patience \<open>P \<ge> 1\<close>, in a run whose losses are
  not NaN: if iteration \<open>k\<close> is the first to attain the smallest loss of the history,
  this loss is below infinity, and \<open>k + P < max_n_iter\<close>, then the loop ends at
  iteration \<open>k + P\<close>, that is with \<open>k + P + 1\<close> recorded losses, the best loss being
  that of iteration \<open>k\<close> and the stall counter being \<open>P\<close>. An iteration whose loss is
  greater than or equal to the best loss increments the counter and breaks when it has
  reached \<open>P\<close>; an iteration with a strictly smaller loss records it and resets the
  counter, without a test (lemma \<open>iteration_Inr\<close>).
\<close>

theorem early_stop_at_best_plus_patience:
  assumes d: "deconvolute solve upd s0 gradients self max_n_iter patience = Inr (alpha, s)"
    and P: "1 \<le> patience"
    and nn: "list_all (\<lambda>l. \<not> isnan l) (loss_history s)"
    and k: "first_min (loss_history s) k" and fin: "flt (loss_history s ! k) PInf"
    and m: "int k + patience < max_n_iter"
  shows "int (length (loss_history s)) = int k + patience + 1
       \<and> best_loss s = loss_history s ! k
       \<and> n_steps_without_improvement s = patience"
proof -
  let ?h = "loss_history s"
  obtain a g where
    l: "optimize_loop upd gradients self patience (nat max_n_iter) (initial_state s0 a g) = Inr s"
    using deconvolute_Inr[OF d] by blast
  have n0: "n_steps_without_improvement (initial_state s0 a g) < patience"
    using P by (simp add: initial_state_def)
  have nn': "\<forall>x \<in> set ?h. \<not> isnan x" using nn by (simp add: list_all_iff)
  from loop_post[OF P l stall_inv_initial n0 nn']
  have inv: "stall_inv s"
    and e: "n_steps_without_improvement s = patience \<or>
          (n_steps_without_improvement s < patience \<and> length ?h = nat max_n_iter)"
    by (simp_all add: initial_state_def)
  have kl: "k < length ?h" using k by (simp add: first_min_def)
  have "\<not> list_all (\<lambda>l. l = PInf) ?h"
    using fin kl by (auto simp: list_all_length)
  then obtain k' where k': "first_min ?h k'" "best_loss s = ?h ! k'"
    "n_steps_without_improvement s = int (length ?h - 1 - k')"
    using inv by (auto simp: stall_inv_def stall_def)
  have kk: "k' = k" using k'(1) k by (rule first_min_unique)
  have c: "n_steps_without_improvement s = int (length ?h) - 1 - int k"
    using k'(3) kl kk by simp
  from e show ?thesis
  proof
    assume "n_steps_without_improvement s = patience"
    then show ?thesis using c k'(2) kk by simp
  next
    assume "n_steps_without_improvement s < patience \<and> length ?h = nat max_n_iter"
    then have "n_steps_without_improvement s < patience"
      and "int (length ?h) = max_n_iter" using m P by auto
    then have False using c m by linarith
    then show ?thesis ..
  qed
qed

theorem early_stop_at_best_plus_patience_witness:
  "run_losses (deconvolute first_tissue_solver descent_update () zero_gradients
      single_tissue_model 5 2) = Some [Fin 0, Fin 0, Fin 0] \<and>
   (1::int) \<le> 2 \<and> list_all (\<lambda>l. \<not> isnan l) [Fin 0, Fin 0, Fin 0] \<and>
   first_min [Fin 0, Fin 0, Fin 0] 0 \<and> flt ([Fin 0, Fin 0, Fin 0] ! 0) PInf \<and>
   int 0 + 2 < (5::int) \<and>
   int (length [Fin 0, Fin 0, Fin 0]) = int 0 + 2 + 1"
proof -
  obtain alpha s where
    d: "deconvolute first_tissue_solver descent_update () zero_gradients
          single_tissue_model 5 2 = Inr (alpha, s)"
    and h: "loss_history s = [Fin 0, Fin 0, Fin 0]"
    using run_losses_Some[OF example_run_patience_2(1)] by blast
  have p: "(1::int) \<le> 2" and m: "int 0 + 2 < (5::int)" by simp_all
  have nn: "list_all (\<lambda>l. \<not> isnan l) (loss_history s)" by (simp add: h isnan_def)
  have k: "first_min (loss_history s) 0" using first_min_zeros(1) by (simp add: h)
  have f: "flt (loss_history s ! 0) PInf" by (simp add: h)
  from early_stop_at_best_plus_patience[OF d p nn k f m] show ?thesis
    using example_run_patience_2(1) first_min_zeros(1) by (simp add: h isnan_def)
qed

text \<open>
  The claim fails as it is stated: with the patience 0 and the constant loss 0, the best
  loss is at iteration 0 and \<open>0 + 0 < 5\<close>, yet the loop runs iteration 1 too: the
  counter is tested only after it has been incremented.
\<close>

theorem zero_patience_counterexample:
  "run_losses (deconvolute first_tissue_solver descent_update () zero_gradients
      single_tissue_model 5 0) = Some [Fin 0, Fin 0] \<and>
   first_min [Fin 0, Fin 0] 0 \<and> int 0 + 0 < (5::int) \<and>
   int (length [Fin 0, Fin 0]) \<noteq> int 0 + 0 + 1"
  using first_min_zeros(2) by (simp add: run_defs eval_nat_numeral)

subsection \<open>A loss that is not finite\<close>

lemma fge_not_nan: "fge l b \<Longrightarrow> \<not> isnan l"
  by (cases l; cases b) (auto simp: fge_def fle_def isnan_def)

lemma loop_nan_continues:
  "optimize_loop upd g self P n s = Inr f \<Longrightarrow>
   \<exists>new. loss_history f = loss_history s @ new \<and> (0 < n \<longrightarrow> new \<noteq> []) \<and>
     (\<forall>i. i < length new \<and> isnan (new ! i) \<and> i + 1 < n \<longrightarrow> i + 1 < length new)"
proof (induction n arbitrary: s)
  case 0
  then show ?case by simp
next
  case (Suc n)
  from Suc.prems obtain s' stop where it: "iteration upd g self P s = Inr (s', stop)"
    and r: "if stop then f = s' else optimize_loop upd g self P n s' = Inr f"
    by (auto split: sum.splits if_splits)
  obtain loss where h: "loss_history s' = loss_history s @ [loss]"
    and c: "if fge loss (best_loss s)
        then best_loss s' = best_loss s
           \<and> n_steps_without_improvement s' = n_steps_without_improvement s + 1
           \<and> stop = (P \<le> n_steps_without_improvement s + 1)
        else best_loss s' = loss \<and> n_steps_without_improvement s' = 0 \<and> \<not> stop"
    using iteration_Inr[OF it] by blast
  show ?case
  proof (cases stop)
    case True
    then have "\<not> isnan loss" using c fge_not_nan by (auto split: if_splits)
    then have "loss_history f = loss_history s @ [loss] \<and> (0 < Suc n \<longrightarrow> [loss] \<noteq> []) \<and>
     (\<forall>i. i < length [loss] \<and> isnan ([loss] ! i) \<and> i + 1 < Suc n \<longrightarrow> i + 1 < length [loss])"
      using True r h by (auto simp: less_Suc_eq_0_disj)
    then show ?thesis by blast
  next
    case False
    then obtain new where n: "loss_history f = loss_history s' @ new" "0 < n \<longrightarrow> new \<noteq> []"
      "\<forall>i. i < length new \<and> isnan (new ! i) \<and> i + 1 < n \<longrightarrow> i + 1 < length new"
      using r Suc.IH by fastforce
    have "i + 1 < length (loss # new)"
      if "i < length (loss # new)" "isnan ((loss # new) ! i)" "i + 1 < Suc n" for i
    proof (cases i)
      case 0
      then show ?thesis using that n(2) by (cases new) simp_all
    next
      case (Suc i')
      then show ?thesis using that n(3) by simp
    qed
    then have "loss_history f = loss_history s @ (loss # new) \<and> (0 < Suc n \<longrightarrow> loss # new \<noteq> []) \<and>
     (\<forall>i. i < length (loss # new) \<and> isnan ((loss # new) ! i) \<and> i + 1 < Suc n
          \<longrightarrow> i + 1 < length (loss # new))"
      using n(1) h by simp
    then show ?thesis by blast
  qed
qed

text \<open>
  A run that has returned, seen from its history: after a loss that is NaN, unless it is
  the last of the \<open>max_n_iter\<close> iterations, the next one has run; the proportions are
  the softmax of the last \<open>alpha_logit\<close> as always.
\<close>

lemma nan_loss_next_iteration_runs:
  assumes d: "deconvolute solve upd s0 gradients self max_n_iter patience = Inr (alpha, s)"
    and i: "i < length (loss_history s)" and nan: "isnan (loss_history s ! i)"
    and m: "int i + 1 < max_n_iter"
  shows "i + 1 < length (loss_history s) \<and> alpha = softmax (data (run_store s AlphaLogit))"
proof -
  obtain a g where
    l: "optimize_loop upd gradients self patience (nat max_n_iter) (initial_state s0 a g) = Inr s"
    and al: "alpha = softmax (data (run_store s AlphaLogit))"
    using deconvolute_Inr[OF d] by blast
  obtain new where "loss_history s = new"
    "\<forall>i. i < length new \<and> isnan (new ! i) \<and> i + 1 < nat max_n_iter \<longrightarrow> i + 1 < length new"
    using loop_nan_continues[OF l] by (auto simp: initial_state_def)
  then show ?thesis using i nan m al by auto
qed

text \<open>
  Claim C9, as the code has it. \<open>deconvolute\<close> has no test of the loss. In any state of
  the loop, when the loss that the iteration computes is not finite, the iteration
  returns as every other does, no exception is raised and the loss is appended to the
  history. The only use of the loss is the comparison \<open>loss >= best_loss\<close>. It is false
  for a loss that is NaN: the iteration counts as an improvement, the counter is reset
  to 0, NaN becomes the best loss, and the loop does not stop there. A loss \<open>+inf\<close>
  compares true unless the best loss is NaN, a loss \<open>-inf\<close> only when the best loss is
  \<open>-inf\<close> too: then the iteration counts as a stall and stops the loop exactly when the
  counter reaches the patience. In every case the loop goes on with the next iteration
  unless the iteration stopped it in this way.
\<close>

theorem non_finite_loss_never_aborts:
  assumes l: "objective self
                (data (Optimizer_zero_grad (run_optimizer s) (run_store s) AlphaLogit))
                (data (Optimizer_zero_grad (run_optimizer s) (run_store s) GammaLogit))
              = Inr loss"
    and nf: "\<not> is_finite loss"
  shows "\<exists>s' stop.
      iteration upd gradients self patience s = Inr (s', stop)
    \<and> loss_history s' = loss_history s @ [loss]
    \<and> (if fge loss (best_loss s)
        then best_loss s' = best_loss s
           \<and> n_steps_without_improvement s' = n_steps_without_improvement s + 1
           \<and> stop = (patience \<le> n_steps_without_improvement s + 1)
        else best_loss s' = loss \<and> n_steps_without_improvement s' = 0 \<and> \<not> stop)
    \<and> (isnan loss \<longrightarrow> \<not> stop \<and> isnan (best_loss s') \<and> n_steps_without_improvement s' = 0)
    \<and> (loss = PInf \<longrightarrow> fge loss (best_loss s) = (\<not> isnan (best_loss s)))
    \<and> (loss = NInf \<longrightarrow> fge loss (best_loss s) = (best_loss s = NInf))
    \<and> optimize_loop upd gradients self patience (Suc n) s =
        (if stop then Inr s' else optimize_loop upd gradients self patience n s')"
proof -
  let ?st1 = "Optimizer_zero_grad (run_optimizer s) (run_store s)"
  obtain opt' st3 where
    o: "Optimizer_step upd loss (run_optimizer s, backward gradients self ?st1) = (opt', st3)"
    by (cases "Optimizer_step upd loss (run_optimizer s, backward gradients self ?st1)")
  define s1 where "s1 = s\<lparr>run_store := st3, run_optimizer := opt',
                         loss_history := loss_history s @ [loss],
                         extra_loss := extra_loss s @ [loss]\<rparr>"
  have pinf: "loss = PInf \<longrightarrow> fge loss (best_loss s) = (\<not> isnan (best_loss s))"
    by (cases "best_loss s") (auto simp: fge_def fle_def isnan_def)
  have ninf: "loss = NInf \<longrightarrow> fge loss (best_loss s) = (best_loss s = NInf)"
    by (cases "best_loss s") (auto simp: fge_def fle_def isnan_def)
  show ?thesis
  proof (cases "fge loss (best_loss s)")
    case True
    then have nn: "\<not> isnan loss" by (rule fge_not_nan)
    define s' where "s' = s1\<lparr>n_steps_without_improvement := n_steps_without_improvement s + 1\<rparr>"
    have it: "iteration upd gradients self patience s
                = Inr (s', patience \<le> n_steps_without_improvement s + 1)"
      using l o True by (simp add: iteration_def Let_def s'_def s1_def)
    have "loss_history s' = loss_history s @ [loss]" "best_loss s' = best_loss s"
      "n_steps_without_improvement s' = n_steps_without_improvement s + 1"
      by (simp_all add: s'_def s1_def)
    then show ?thesis using it True nn pinf ninf
      by (intro exI[of _ s'] exI[of _ "patience \<le> n_steps_without_improvement s + 1"]) simp
  next
    case False
    define s' where "s' = s1\<lparr>best_loss := loss, n_steps_without_improvement := 0\<rparr>"
    have it: "iteration upd gradients self patience s = Inr (s', False)"
      using l o False by (simp add: iteration_def Let_def s'_def s1_def)
    have "loss_history s' = loss_history s @ [loss]" "best_loss s' = loss"
      "n_steps_without_improvement s' = 0"
      by (simp_all add: s'_def s1_def)
    then show ?thesis using it False pinf ninf
      by (intro exI[of _ s'] exI[of _ False]) simp
  qed
qed

text \<open>
  The example: at the entry of the loop of a run whose \<open>beta\<close> is NaN the loss is NaN;
  the first iteration returns without stopping the loop, even with the patience 1, and
  the two remaining iterations of a run of three are made from its state.
\<close>

theorem non_finite_loss_never_aborts_witness:
  "objective (single_tissue_model\<lparr>beta := NaN\<rparr>)
     (data (Optimizer_zero_grad (run_optimizer (initial_state () [[Fin 0]] [[Fin 0, Fin 0]]))
        (run_store (initial_state () [[Fin 0]] [[Fin 0, Fin 0]])) AlphaLogit))
     (data (Optimizer_zero_grad (run_optimizer (initial_state () [[Fin 0]] [[Fin 0, Fin 0]]))
        (run_store (initial_state () [[Fin 0]] [[Fin 0, Fin 0]])) GammaLogit)) = Inr NaN \<and>
   \<not> is_finite NaN \<and>
   (\<exists>s'. iteration descent_update nan_gradients (single_tissue_model\<lparr>beta := NaN\<rparr>) 1
           (initial_state () [[Fin 0]] [[Fin 0, Fin 0]]) = Inr (s', False) \<and>
         loss_history s' = [NaN] \<and> isnan (best_loss s') \<and>
         n_steps_without_improvement s' = 0 \<and>
         optimize_loop descent_update nan_gradients (single_tissue_model\<lparr>beta := NaN\<rparr>) 1
           (Suc 2) (initial_state () [[Fin 0]] [[Fin 0, Fin 0]]) =
         optimize_loop descent_update nan_gradients (single_tissue_model\<lparr>beta := NaN\<rparr>) 1
           2 s')"
proof -
  let ?self = "single_tissue_model\<lparr>beta := NaN\<rparr>"
  let ?s = "initial_state () [[Fin 0]] [[Fin 0, Fin 0]] :: unit run_state"
  have l: "objective ?self
     (data (Optimizer_zero_grad (run_optimizer ?s) (run_store ?s) AlphaLogit))
     (data (Optimizer_zero_grad (run_optimizer ?s) (run_store ?s) GammaLogit)) = Inr NaN"
    by (simp add: initial_state_def Optimizer_zero_grad_def adam_zero_grad_def
        Optimizer_add_def Optimizer_default_def Optimizer_init_def objective_defs
        fsub_def Let_def)
  have nf: "\<not> is_finite NaN" by (simp add: is_finite_def)
  have h: "loss_history ?s = []" by (simp add: initial_state_def)
  from non_finite_loss_never_aborts[OF l nf, of descent_update nan_gradients 1 2]
  obtain s' stop where
    "iteration descent_update nan_gradients ?self 1 ?s = Inr (s', stop)"
    "loss_history s' = loss_history ?s @ [NaN]"
    "isnan NaN \<longrightarrow> \<not> stop \<and> isnan (best_loss s') \<and> n_steps_without_improvement s' = 0"
    "optimize_loop descent_update nan_gradients ?self 1 (Suc 2) ?s =
       (if stop then Inr s' else optimize_loop descent_update nan_gradients ?self 1 2 s')"
    by blast
  then have "iteration descent_update nan_gradients ?self 1 ?s = Inr (s', False) \<and>
         loss_history s' = [NaN] \<and> isnan (best_loss s') \<and>
         n_steps_without_improvement s' = 0 \<and>
         optimize_loop descent_update nan_gradients ?self 1 (Suc 2) ?s =
         optimize_loop descent_update nan_gradients ?self 1 2 s'"
    using h by (simp add: isnan_def)
  then show ?thesis using l nf by blast
qed

text \<open>
  The claim fails as it is stated: with \<open>beta\<close> NaN every loss is NaN; the run is not
  aborted at iteration 0 but makes its three iterations, even with the patience 1, and
  returns proportions that are NaN.
\<close>

theorem nan_loss_run_counterexample:
  "run_losses (deconvolute first_tissue_solver descent_update () nan_gradients
      (single_tissue_model\<lparr>beta := NaN\<rparr>) 3 1) = Some [NaN, NaN, NaN] \<and>
   run_proportions (deconvolute first_tissue_solver descent_update () nan_gradients
      (single_tissue_model\<lparr>beta := NaN\<rparr>) 3 1) = Some [[NaN]]"
  unfolding deconvolute_def init_single
  by (simp add: run_defs objective_defs eval_nat_numeral)

subsection \<open>The tensor gamma_logit\<close>

lemma adam_step_params_frame:
  "p \<notin> set ps \<Longrightarrow> snd (adam_step_params upd rate ps (m, st)) p = st p"
proof (induction ps arbitrary: m st)
  case Nil
  then show ?case by simp
next
  case (Cons q ps)
  then show ?case by (auto split: option.splits prod.splits)
qed

lemma adam_step_groups_frame:
  "\<forall>g \<in> set gs. p \<notin> set (params g) \<Longrightarrow> snd (adam_step_groups upd gs (m, st)) p = st p"
proof (induction gs arbitrary: m st)
  case Nil
  then show ?case by simp
next
  case (Cons g gs)
  obtain m' st' where e: "adam_step_params upd (lr g) (params g) (m, st) = (m', st')"
    by (cases "adam_step_params upd (lr g) (params g) (m, st)")
  have "st' p = st p" using adam_step_params_frame[of p "params g" upd "lr g" m st] Cons.prems e by simp
  then show ?case using Cons e by simp
qed

lemma adam_step_frame:
  assumes "adam_step upd a st = (a', st')"
  shows "param_groups a' = param_groups a"
    and "\<forall>g \<in> set (param_groups a). p \<notin> set (params g) \<Longrightarrow> st' p = st p"
proof -
  obtain m' where e: "adam_step_groups upd (param_groups a) (moments a, st) = (m', st')"
    and a': "a' = a\<lparr>moments := m'\<rparr>"
    using assms by (auto simp: adam_step_def split: prod.splits)
  show "param_groups a' = param_groups a" using a' by simp
  show "\<forall>g \<in> set (param_groups a). p \<notin> set (params g) \<Longrightarrow> st' p = st p"
    using adam_step_groups_frame[of "param_groups a" p upd "moments a" st] e by simp
qed

lemma Optimizer_step_frame:
  assumes u: "unregistered p opt" and len: "length (optimizers opt) = length (parameters opt)"
    and s: "Optimizer_step upd loss (opt, st) = (opt', st')"
  shows "st' p = st p" and "unregistered p opt'"
    and "length (optimizers opt') = length (parameters opt')"
    and "map params (parameters opt') = map params (parameters opt)"
proof -
  let ?n = "length (parameters opt)"
  have all: "st' p = st p \<and> unregistered p opt'
      \<and> length (optimizers opt') = length (parameters opt')
      \<and> map params (parameters opt') = map params (parameters opt)"
  proof (cases "cursor opt \<ge> ?n")
    case True
    then show ?thesis using s u len by (simp add: Optimizer_step_def)
  next
    case False
    define previous where "previous = (cursor opt + ?n - 1) mod ?n"
    define rate where "rate = clip (fmul (lr (parameters opt ! previous))
                  (if fle loss (last_loss opt) then alpha_up opt else alpha_down opt))
               (lr_lb opt) (lr_ub opt)"
    define os1 where "os1 = (optimizers opt)[previous := (optimizers opt ! previous)
          \<lparr>param_groups :=
             map (\<lambda>g. g\<lparr>lr := rate\<rparr>) (param_groups (optimizers opt ! previous))\<rparr>]"
    have "0 < ?n" using False by (cases "parameters opt") simp_all
    then have pv: "previous < ?n" unfolding previous_def by (rule mod_less_divisor)
    obtain a' where a': "adam_step upd (os1 ! cursor opt) st = (a', st')"
      and opt': "opt' = opt\<lparr>parameters := (parameters opt)[previous :=
                      (parameters opt ! previous)\<lparr>lr := rate\<rparr>],
                   optimizers := os1[cursor opt := a'],
                   last_loss := loss,
                   cursor := (cursor opt + 1) mod ?n\<rparr>"
      using s False
      by (auto simp: Optimizer_step_def Let_def previous_def rate_def os1_def split: prod.splits)
    have u1: "\<forall>a \<in> set os1. \<forall>g \<in> set (param_groups a). p \<notin> set (params g)"
    proof
      fix a assume "a \<in> set os1"
      then consider "a \<in> set (optimizers opt)"
        | "a = (optimizers opt ! previous)\<lparr>param_groups :=
             map (\<lambda>g. g\<lparr>lr := rate\<rparr>) (param_groups (optimizers opt ! previous))\<rparr>"
        unfolding os1_def using set_update_subset_insert[of "optimizers opt" previous] by blast
      then show "\<forall>g \<in> set (param_groups a). p \<notin> set (params g)"
      proof cases
        case 1
        then show ?thesis using u by (simp add: unregistered_def)
      next
        case 2
        have "optimizers opt ! previous \<in> set (optimizers opt)" using pv len by simp
        then show ?thesis using u 2 by (auto simp: unregistered_def)
      qed
    qed
    have c: "os1 ! cursor opt \<in> set os1" using False len by (simp add: os1_def)
    note f = adam_step_frame[OF a']
    have 1: "st' p = st p" using f(2) u1 c by blast
    have 2: "unregistered p opt'"
      unfolding unregistered_def
    proof
      fix a assume "a \<in> set (optimizers opt')"
      then consider "a \<in> set os1" | "a = a'"
        using set_update_subset_insert[of os1 "cursor opt"] by (auto simp: opt')
      then show "\<forall>g \<in> set (param_groups a). p \<notin> set (params g)"
        using u1 c f(1) by cases auto
    qed
    have 3: "length (optimizers opt') = length (parameters opt')"
      using len by (simp add: opt' os1_def)
    have 4: "map params (parameters opt') = map params (parameters opt)"
      using pv by (simp add: opt' map_update list_update_same_conv)
    show ?thesis using 1 2 3 4 by simp
  qed
  show "st' p = st p" "unregistered p opt'"
    "length (optimizers opt') = length (parameters opt')"
    "map params (parameters opt') = map params (parameters opt)"
    using all by simp_all
qed

lemma fold_grad_None_data:
  "data (fold (\<lambda>p st. st(p := (st p)\<lparr>grad := None\<rparr>)) ps st q) = data (st q)"
  by (induction ps arbitrary: st) simp_all

lemma fold_grad_None_frame:
  "q \<notin> set ps \<Longrightarrow> fold (\<lambda>p st. st(p := (st p)\<lparr>grad := None\<rparr>)) ps st q = st q"
  by (induction ps arbitrary: st) simp_all

lemma fold_adam_zero_grad_data: "data (fold adam_zero_grad as st q) = data (st q)"
  by (induction as arbitrary: st) (simp_all add: adam_zero_grad_def fold_grad_None_data)

lemma fold_adam_zero_grad_frame:
  "\<forall>a \<in> set as. \<forall>g \<in> set (param_groups a). q \<notin> set (params g) \<Longrightarrow>
   fold adam_zero_grad as st q = st q"
  by (induction as arbitrary: st) (simp_all add: adam_zero_grad_def fold_grad_None_frame)

lemma zero_grad_data: "data (Optimizer_zero_grad opt st q) = data (st q)"
  by (simp add: Optimizer_zero_grad_def fold_adam_zero_grad_data)

lemma zero_grad_frame: "unregistered q opt \<Longrightarrow> Optimizer_zero_grad opt st q = st q"
  by (simp add: Optimizer_zero_grad_def unregistered_def fold_adam_zero_grad_frame)

lemma backward_gamma:
  "data (backward g self st GammaLogit) = data (st GammaLogit)"
  "grad (backward g self st GammaLogit) \<noteq> None"
  by (simp_all add: backward_def accumulate_def split: prod.splits)

lemma gamma_inv_iteration:
  assumes it: "iteration upd g self P s = Inr (s', stop)" and inv: "gamma_inv g0 s"
  shows "gamma_inv g0 s'"
proof -
  let ?st1 = "Optimizer_zero_grad (run_optimizer s) (run_store s)"
  obtain loss where
    st: "(run_optimizer s', run_store s') = Optimizer_step upd loss (run_optimizer s,
         backward g self ?st1)"
    and h: "loss_history s' = loss_history s @ [loss]"
    using iteration_Inr[OF it] by blast
  have u: "unregistered GammaLogit (run_optimizer s)"
    and len: "length (optimizers (run_optimizer s)) = length (parameters (run_optimizer s))"
    using inv by (simp_all add: gamma_inv_def)
  note f = Optimizer_step_frame[OF u len st[symmetric]]
  have "run_store s' GammaLogit = backward g self ?st1 GammaLogit" by (rule f(1))
  moreover have "data (backward g self ?st1 GammaLogit) = g0"
    using inv by (simp add: backward_gamma(1) zero_grad_data gamma_inv_def)
  ultimately show ?thesis
    using f(2,3,4) inv backward_gamma(2)[of g self ?st1] by (simp add: gamma_inv_def)
qed

lemma gamma_inv_loop:
  "optimize_loop upd g self P n s = Inr f \<Longrightarrow> gamma_inv g0 s \<Longrightarrow> gamma_inv g0 f"
proof (induction n arbitrary: s)
  case 0
  then show ?case by simp
next
  case (Suc n)
  from Suc.prems(1) obtain s' stop where it: "iteration upd g self P s = Inr (s', stop)"
    and r: "if stop then f = s' else optimize_loop upd g self P n s' = Inr f"
    by (auto split: sum.splits if_splits)
  have "gamma_inv g0 s'" using it Suc.prems(2) by (rule gamma_inv_iteration)
  then show ?case using r Suc.IH by (auto split: if_splits)
qed

lemma gamma_inv_initial: "gamma_inv g (initial_state s0 a g)"
  by (simp add: gamma_inv_def initial_state_def unregistered_def Optimizer_add_def
      Optimizer_default_def Optimizer_init_def Let_def)

text \<open>
  Claim C8. In every run of \<open>deconvolute\<close> that returns, the values of \<open>gamma_logit\<close>
  at the end are those that the initializer gave it, the logit of the atlas ratios
  with the rows of the unknown tissues; the only group of the optimizer is that of
  \<open>alpha_logit\<close>; and once an iteration has run \<open>gamma_logit\<close> has a gradient, which
  the backward pass computed and no optimizer used.
\<close>

theorem gamma_logit_never_updated:
  assumes "deconvolute solve upd s0 gradients self max_n_iter patience = Inr (alpha, s)"
  shows "\<exists>R_atlas alpha_hat.
           init_atlas_and_alpha_hat self solve = Inr (R_atlas, alpha_hat)
         \<and> data (run_store s GammaLogit) = map (map logit) R_atlas
         \<and> map params (parameters (run_optimizer s)) = [[AlphaLogit]]
         \<and> (loss_history s \<noteq> [] \<longrightarrow> grad (run_store s GammaLogit) \<noteq> None)"
proof -
  obtain a g where i: "init_alpha_and_gamma self solve = Inr (a, g)"
    and l: "optimize_loop upd gradients self patience (nat max_n_iter) (initial_state s0 a g)
              = Inr s"
    using deconvolute_Inr[OF assms] by blast
  obtain R_atlas alpha_hat where r: "init_atlas_and_alpha_hat self solve = Inr (R_atlas, alpha_hat)"
    and g: "g = map (map logit) R_atlas"
    using i by (auto simp: init_alpha_and_gamma_def split: sum.splits)
  from gamma_inv_loop[OF l gamma_inv_initial] show ?thesis
    using r g by (simp add: gamma_inv_def)
qed

theorem gamma_logit_never_updated_witness:
  "run_gamma_logit (deconvolute first_tissue_solver descent_update () zero_gradients
      single_tissue_model 5 2) = Some [[Fin 0, Fin 0]] \<and>
   init_atlas_and_alpha_hat single_tissue_model first_tissue_solver
     = Inr ([[Fin (1 / 2), Fin (1 / 2)]], [[Fin 1]]) \<and>
   map (map logit) [[Fin (1 / 2), Fin (1 / 2)]] = [[Fin 0, Fin 0]]"
proof -
  obtain alpha s where
    d: "deconvolute first_tissue_solver descent_update () zero_gradients
          single_tissue_model 5 2 = Inr (alpha, s)"
    and g: "data (run_store s GammaLogit) = [[Fin 0, Fin 0]]"
    using run_gamma_logit_Some[OF example_run_patience_2(2)] by blast
  have i: "init_atlas_and_alpha_hat single_tissue_model first_tissue_solver
     = Inr ([[Fin (1 / 2), Fin (1 / 2)]], [[Fin 1]])"
    by (simp add: init_atlas_and_alpha_hat_def atlas_ratios_def
      cfdna_ratios_def depth_weights_def div_matrix_def transpose_matrix_def column_def
      ncols_def msum_def proportions_def nnls_def add_epsilon_def normalize_rows_def
      min_axis0_def max_axis0_def Let_def first_tissue_solver_def single_tissue_model_def
      round64_half)
  from gamma_logit_never_updated[OF d] show ?thesis
    using example_run_patience_2(2) i g by auto
qed


section \<open>The command line\<close>

text \<open>
  Claim C10 does not hold of the code: the script parses \<open>-beta\<close> and then builds the
  model without it. With \<open>-beta 0\<close> the option is accepted as 0, but the \<open>beta\<close> of
  the model is the default 1 of the constructor, and the weights of the loss are the
  shares of the depth, 1/4 and 3/4 here, where the power 0 would give 1 and 1.
\<close>

theorem cli_beta_not_forwarded:
  "parse_beta (Some (Some (Fin 0))) = Inr (Fin 0) \<and>
   map_sum id beta
     (run_model 0 (Some (Some (Fin 0))) [[Fin 1, Fin 1]] [[Fin 2, Fin 2]]
        [[''chr1'', ''100'', ''200''], [''chr1'', ''300'', ''400'']]
        [[Fin 1, Fin 3]] [[Fin 2, Fin 6]]
        [[''chr1'', ''100'', ''200''], [''chr1'', ''300'', ''400'']]) = Inr (Fin 1) \<and>
   map_sum id loss_weights
     (run_model 0 (Some (Some (Fin 0))) [[Fin 1, Fin 1]] [[Fin 2, Fin 2]]
        [[''chr1'', ''100'', ''200''], [''chr1'', ''300'', ''400'']]
        [[Fin 1, Fin 3]] [[Fin 2, Fin 6]]
        [[''chr1'', ''100'', ''200''], [''chr1'', ''300'', ''400'']])
     = Inr [[Fin (1 / 4), Fin (3 / 4)]] \<and>
   fpow (Fin (1 / 4)) (Fin 0) = Fin 1 \<and> fpow (Fin (3 / 4)) (Fin 0) = Fin 1"
  by (simp add: parse_beta_def bounded_float_type_def fgt_def run_model_def MetDecode_init_def
      pseudo_count_defs beta_default_def loss_weights_def depth_weights_def fpow_def fle_def)

end
